theory Spec2Isabelle
  imports Main
begin

section \<open>Python strings\<close>

text \<open>
  A Python \<open>str\<close> is a sequence of code points. The model is \<^typ>\<open>string\<close>, so it covers
  the code points 0..255 (Latin-1); \<open>length\<close> counts code points there, as \<open>len\<close> does.
  In that range the decimal digits of \<open>\d\<close> are \<open>0\<close>..\<open>9\<close> and the white space of \<open>\s\<close> and
  of \<open>str.strip()\<close> is 9..13, 28..32, 133 and 160.
\<close>

definition py_isdigit :: "char \<Rightarrow> bool" where
  "py_isdigit c = (let n = (of_char c :: nat) in 48 \<le> n \<and> n \<le> 57)"

definition py_isspace :: "char \<Rightarrow> bool" where
  "py_isspace c = (let n = (of_char c :: nat) in
     (9 \<le> n \<and> n \<le> 13) \<or> (28 \<le> n \<and> n \<le> 32) \<or> n = 133 \<or> n = 160)"

text \<open>\<open>s.startswith(p)\<close>.\<close>

definition startswith :: "string \<Rightarrow> string \<Rightarrow> bool" where
  "startswith s p = (take (length p) s = p)"

text \<open>\<open>p in s\<close> for strings: \<open>p\<close> occurs in \<open>s\<close> as a contiguous substring.\<close>

fun contains :: "string \<Rightarrow> string \<Rightarrow> bool" where
  "contains [] p = (p = [])"
| "contains (c # cs) p = (startswith (c # cs) p \<or> contains cs p)"

text \<open>\<open>s.strip()\<close>: white space removed at both ends.\<close>

definition lstrip :: "string \<Rightarrow> string" where
  "lstrip s = dropWhile py_isspace s"

definition rstrip :: "string \<Rightarrow> string" where
  "rstrip s = rev (dropWhile py_isspace (rev s))"

definition strip :: "string \<Rightarrow> string" where
  "strip s = rstrip (lstrip s)"

text \<open>\<open>sep.join(parts)\<close>.\<close>

fun join :: "string \<Rightarrow> string list \<Rightarrow> string" where
  "join sep [] = []"
| "join sep [p] = p"
| "join sep (p # q # ps) = p @ sep @ join sep (q # ps)"

section \<open>Regular expressions, as \<open>re.search\<close> runs them\<close>

text \<open>
  The five patterns of \<open>app.py\<close> repeat single-character classes only, so a repetition is
  a class with a minimum count and a greedy or lazy flag. \<open>rmatch r s\<close> lists every way \<open>r\<close>
  can match at the start of \<open>s\<close>, in the order in which the backtracking matcher of Python
  tries them: the contents of group 1 (if the group took part) and the text that is left.
  The first element of the list is the match Python reports.
\<close>

datatype cclass =
    CDigit          \<comment> \<open>\<open>\d\<close>\<close>
  | CSpace          \<comment> \<open>\<open>\s\<close>\<close>
  | CDot            \<comment> \<open>\<open>.\<close> without \<open>re.DOTALL\<close>: anything but a newline\<close>
  | CAny            \<comment> \<open>\<open>.\<close> under \<open>re.DOTALL\<close>\<close>
  | COneOf string   \<comment> \<open>\<open>[...]\<close>\<close>

fun in_class :: "cclass \<Rightarrow> char \<Rightarrow> bool" where
  "in_class CDigit c = py_isdigit c"
| "in_class CSpace c = py_isspace c"
| "in_class CDot c = (c \<noteq> CHR 0x0A)"
| "in_class CAny c = True"
| "in_class (COneOf cs) c = (c \<in> set cs)"

datatype re =
    Lit string             \<comment> \<open>literal text\<close>
  | Cls cclass             \<comment> \<open>one character of a class\<close>
  | Rep cclass nat bool    \<comment> \<open>class repeated at least \<open>n\<close> times; \<open>True\<close> is greedy, \<open>False\<close> lazy\<close>
  | Opt re                 \<comment> \<open>\<open>r?\<close> (greedy)\<close>
  | Seq re re
  | Alt re re              \<comment> \<open>\<open>a|b\<close>\<close>
  | Group re               \<comment> \<open>capturing group 1\<close>
  | Eol                    \<comment> \<open>\<open>$\<close>: at the end, or before a newline that ends the text\<close>

definition later :: "string option \<Rightarrow> string option \<Rightarrow> string option" where
  "later c1 c2 = (case c2 of None \<Rightarrow> c1 | Some g \<Rightarrow> Some g)"

definition rep_counts :: "nat \<Rightarrow> nat \<Rightarrow> bool \<Rightarrow> nat list" where
  "rep_counts lo hi greedy = (if greedy then rev [lo..<Suc hi] else [lo..<Suc hi])"

fun rmatch :: "re \<Rightarrow> string \<Rightarrow> (string option \<times> string) list" where
  "rmatch (Lit l) s = (if startswith s l then [(None, drop (length l) s)] else [])"
| "rmatch (Cls c) s =
     (case s of [] \<Rightarrow> [] | x # xs \<Rightarrow> if in_class c x then [(None, xs)] else [])"
| "rmatch (Rep c lo greedy) s =
     map (\<lambda>k. (None, drop k s)) (rep_counts lo (length (takeWhile (in_class c) s)) greedy)"
| "rmatch (Opt r) s = rmatch r s @ [(None, s)]"
| "rmatch (Seq a b) s =
     concat (map (\<lambda>(c1, s1). map (\<lambda>(c2, s2). (later c1 c2, s2)) (rmatch b s1)) (rmatch a s))"
| "rmatch (Alt a b) s = rmatch a s @ rmatch b s"
| "rmatch (Group r) s =
     map (\<lambda>(c, s'). (Some (take (length s - length s') s), s')) (rmatch r s)"
| "rmatch Eol s = (if s = [] \<or> s = [CHR 0x0A] then [(None, s)] else [])"

text \<open>
  A match object: \<open>group0\<close> is \<open>m.group(0)\<close>, \<open>group1\<close> is \<open>m.group(1)\<close> (\<open>None\<close> when the
  group did not take part).
\<close>

record rematch =
  group0 :: string
  group1 :: "string option"

definition match_at :: "re \<Rightarrow> string \<Rightarrow> rematch option" where
  "match_at r s = (case rmatch r s of
       [] \<Rightarrow> None
     | (c, rest) # _ \<Rightarrow> Some \<lparr>group0 = take (length s - length rest) s, group1 = c\<rparr>)"

text \<open>\<open>re.search\<close>: the match at the leftmost position that has one.\<close>

fun re_search :: "re \<Rightarrow> string \<Rightarrow> rematch option" where
  "re_search r [] = match_at r []"
| "re_search r (c # cs) =
     (case match_at r (c # cs) of Some m \<Rightarrow> Some m | None \<Rightarrow> re_search r cs)"

section \<open>The LinkedIn job identifier\<close>

text \<open>\<open>r"jobs/view/(?:.*?[-/])?(\d{8,})"\<close>\<close>

definition pat_path :: re where
  "pat_path = Seq (Lit ''jobs/view/'')
                (Seq (Opt (Seq (Rep CDot 0 False) (Cls (COneOf ''-/''))))
                     (Group (Rep CDigit 8 True)))"

text \<open>\<open>r"currentJobId=(\d+)"\<close>\<close>

definition pat_query :: re where
  "pat_query = Seq (Lit ''currentJobId='') (Group (Rep CDigit 1 True))"

text \<open>\<open>r"/(\d{8,})/?(?:\?|$)"\<close>\<close>

definition pat_trailing :: re where
  "pat_trailing = Seq (Lit ''/'')
                    (Seq (Group (Rep CDigit 8 True))
                         (Seq (Opt (Lit ''/'')) (Alt (Lit ''?'') Eol)))"

definition extract_linkedin_job_id :: "string \<Rightarrow> string option" where
  "extract_linkedin_job_id url =
     (case re_search pat_path url of
        Some m \<Rightarrow> group1 m
      | None \<Rightarrow>
         (case re_search pat_query url of
            Some m \<Rightarrow> group1 m
          | None \<Rightarrow>
             (case re_search pat_trailing url of
                Some m \<Rightarrow> group1 m
              | None \<Rightarrow> None)))"

text \<open>
  \<open>i\<close> is a run of digits of \<open>url\<close> that cannot be extended on either side.
\<close>

definition maximal_digit_run :: "string \<Rightarrow> string \<Rightarrow> bool" where
  "maximal_digit_run url i =
     (i \<noteq> [] \<and> list_all py_isdigit i \<and>
      (\<exists>pre post. url = pre @ i @ post \<and>
         (pre = [] \<or> \<not> py_isdigit (last pre)) \<and> (post = [] \<or> \<not> py_isdigit (hd post))))"

section \<open>JSON values and \<open>json.loads\<close>\<close>

text \<open>
  The exceptions the modelled code can raise. \<open>OutsideModel\<close> is no Python exception: it marks
  an input on which the model does not say what Python does (a JSON text whose parse holds
  a code point above 255, from an escape \<open>\uXXXX\<close>, which a \<^typ>\<open>string\<close> cannot hold; a JSON
  text with an integer too long or a nesting too deep for the interpreter; a URL with a
  bracketed host, whose validation differs between Python versions).
\<close>

datatype pyerror =
    JSONDecodeError | AttributeError | IndexError | ValueError
  | RequestException | HTTPError | FileNotFoundError | TemplateSyntaxError | OutsideModel

text \<open>
  What \<open>json.loads\<close> returns: \<open>None\<close>, \<open>bool\<close>, \<open>int\<close>, \<open>float\<close> (kept as the text of the
  literal), \<open>str\<close>, \<open>list\<close>, and \<open>dict\<close> as an association list in insertion order.
\<close>

datatype json =
    JNull
  | JBool bool
  | JInt int
  | JFloat string
  | JStr string
  | JArr "json list"
  | JObj "(string \<times> json) list"

text \<open>\<open>d[k] = v\<close>: a key that is present keeps its place and takes the new value.\<close>

fun dict_set :: "(string \<times> json) list \<Rightarrow> string \<Rightarrow> json \<Rightarrow> (string \<times> json) list" where
  "dict_set [] k v = [(k, v)]"
| "dict_set ((k', v') # kvs) k v =
     (if k' = k then (k, v) # kvs else (k', v') # dict_set kvs k v)"

text \<open>\<open>d.get(k, default)\<close>.\<close>

definition dict_get :: "(string \<times> json) list \<Rightarrow> string \<Rightarrow> json \<Rightarrow> json" where
  "dict_get kvs k dflt = (case map_of kvs k of None \<Rightarrow> dflt | Some v \<Rightarrow> v)"

subsection \<open>Tokens\<close>

datatype tok = LBrace | RBrace | LBrack | RBrack | Colon | Comma | Scalar json | Bad pyerror

definition json_ws :: "char \<Rightarrow> bool" where
  "json_ws c = (c = CHR '' '' \<or> c = CHR 0x09 \<or> c = CHR 0x0A \<or> c = CHR 0x0D)"

definition hexval :: "char \<Rightarrow> nat option" where
  "hexval c = (let n = (of_char c :: nat) in
     if 48 \<le> n \<and> n \<le> 57 then Some (n - 48)
     else if 65 \<le> n \<and> n \<le> 70 then Some (n - 55)
     else if 97 \<le> n \<and> n \<le> 102 then Some (n - 87)
     else None)"

definition hex4 :: "char \<Rightarrow> char \<Rightarrow> char \<Rightarrow> char \<Rightarrow> nat option" where
  "hex4 a b c d =
     (case (hexval a, hexval b, hexval c, hexval d) of
        (Some w, Some x, Some y, Some z) \<Rightarrow> Some (((w * 16 + x) * 16 + y) * 16 + z)
      | _ \<Rightarrow> None)"

text \<open>The one-letter escapes of a JSON string: \<open>\" \\ \/ \b \f \n \r \t\<close>.\<close>

definition unescape :: "char \<Rightarrow> char option" where
  "unescape e =
     (if e = CHR 0x22 then Some (CHR 0x22)
      else if e = CHR 0x5C then Some (CHR 0x5C)
      else if e = CHR ''/'' then Some (CHR ''/'')
      else if e = CHR ''b'' then Some (CHR 0x08)
      else if e = CHR ''f'' then Some (CHR 0x0C)
      else if e = CHR ''n'' then Some (CHR 0x0A)
      else if e = CHR ''r'' then Some (CHR 0x0D)
      else if e = CHR ''t'' then Some (CHR 0x09)
      else None)"

definition prepend :: "char \<Rightarrow> pyerror + string \<times> string \<Rightarrow> pyerror + string \<times> string" where
  "prepend c r = (case r of Inl e \<Rightarrow> Inl e | Inr (str, rest) \<Rightarrow> Inr (c # str, rest))"

text \<open>
  The body of a string literal, after its opening quote (strict mode: a control character
  ends the parse with an error): the decoded string and the text after the closing quote.
\<close>

fun scan_string :: "string \<Rightarrow> pyerror + string \<times> string" where
  "scan_string [] = Inl JSONDecodeError"
| "scan_string (c # cs) =
     (if c = CHR 0x22 then Inr ([], cs)
      else if c = CHR 0x5C then
        (case cs of
           [] \<Rightarrow> Inl JSONDecodeError
         | e # es \<Rightarrow>
            if e = CHR ''u'' then
              (case es of
                 h1 # h2 # h3 # h4 # rest \<Rightarrow>
                   (case hex4 h1 h2 h3 h4 of
                      None \<Rightarrow> Inl JSONDecodeError
                    | Some n \<Rightarrow>
                       if n < 256 then prepend (char_of n) (scan_string rest)
                       else Inl OutsideModel)
               | _ \<Rightarrow> Inl JSONDecodeError)
            else
              (case unescape e of
                 None \<Rightarrow> Inl JSONDecodeError
               | Some ch \<Rightarrow> prepend ch (scan_string es)))
      else if (of_char c :: nat) < 32 then Inl JSONDecodeError
      else prepend c (scan_string cs))"

text \<open>
  A number, by \<open>(-?(?:0|[1-9]\d*))(\.\d+)?([eE][-+]?\d+)?\<close>: an \<open>int\<close> when it has neither
  fraction nor exponent, a \<open>float\<close> otherwise.
\<close>

definition digits_value :: "string \<Rightarrow> int" where
  "digits_value ds = foldl (\<lambda>acc d. acc * 10 + (int (of_char d) - 48)) 0 ds"

definition lex_int_part :: "string \<Rightarrow> (string \<times> string) option" where
  "lex_int_part s =
     (case s of
        [] \<Rightarrow> None
      | d # ds \<Rightarrow>
         if d = CHR ''0'' then Some ([d], ds)
         else if py_isdigit d then Some (d # takeWhile py_isdigit ds, dropWhile py_isdigit ds)
         else None)"

definition lex_frac :: "string \<Rightarrow> string \<times> string" where
  "lex_frac s =
     (case s of
        [] \<Rightarrow> ([], s)
      | d # ds \<Rightarrow>
         if d = CHR ''.'' \<and> takeWhile py_isdigit ds \<noteq> []
         then (d # takeWhile py_isdigit ds, dropWhile py_isdigit ds)
         else ([], s))"

definition lex_exp :: "string \<Rightarrow> string \<times> string" where
  "lex_exp s =
     (case s of
        [] \<Rightarrow> ([], s)
      | e # es \<Rightarrow>
         if e = CHR ''e'' \<or> e = CHR ''E'' then
           (let sgn = (case es of
                         [] \<Rightarrow> []
                       | x # _ \<Rightarrow> if x = CHR ''-'' \<or> x = CHR ''+'' then [x] else []);
                ds = drop (length sgn) es
            in if takeWhile py_isdigit ds \<noteq> []
               then (e # sgn @ takeWhile py_isdigit ds, dropWhile py_isdigit ds)
               else ([], s))
         else ([], s))"

text \<open>
  CPython refuses to convert an integer literal of more than 4300 digits (\<open>ValueError\<close>,
  from version 3.11 on and by default), and stops a parse that nests too deep
  (\<open>RecursionError\<close>, at a depth that depends on the recursion limit of the interpreter,
  1000 by default, and on the frames in use). Both depend on the interpreter and its
  settings: on a longer integer, and on more than 500 open containers, the model answers
  \<open>OutsideModel\<close>.
\<close>

definition max_int_digits :: nat where
  "max_int_digits = 4300"

definition nesting_limit :: nat where
  "nesting_limit = 500"

definition lex_number :: "string \<Rightarrow> ((pyerror + json) \<times> string) option" where
  "lex_number s =
     (let neg = (s \<noteq> [] \<and> hd s = CHR ''-'');
          s1 = (if neg then tl s else s)
      in case lex_int_part s1 of
           None \<Rightarrow> None
         | Some (ip, r1) \<Rightarrow>
            (let (fr, r2) = lex_frac r1; (ex, r3) = lex_exp r2
             in if fr = [] \<and> ex = []
                then if max_int_digits < length ip then Some (Inl OutsideModel, r3)
                     else Some (Inr (JInt (if neg then - digits_value ip else digits_value ip)), r3)
                else Some (Inr (JFloat ((if neg then ''-'' else []) @ ip @ fr @ ex)), r3)))"

text \<open>
  One scalar at the start of the text, in the order in which the scanner tries them:
  string, \<open>null\<close>, \<open>true\<close>, \<open>false\<close>, number, \<open>NaN\<close>, \<open>Infinity\<close>, \<open>-Infinity\<close>.
\<close>

definition lex_scalar :: "string \<Rightarrow> pyerror + json \<times> string" where
  "lex_scalar s =
     (if startswith s [CHR 0x22] then
        (case scan_string (tl s) of Inl e \<Rightarrow> Inl e | Inr (str, rest) \<Rightarrow> Inr (JStr str, rest))
      else if startswith s ''null'' then Inr (JNull, drop 4 s)
      else if startswith s ''true'' then Inr (JBool True, drop 4 s)
      else if startswith s ''false'' then Inr (JBool False, drop 5 s)
      else (case lex_number s of
              Some (Inr v, rest) \<Rightarrow> Inr (v, rest)
            | Some (Inl e, rest) \<Rightarrow> Inl e
            | None \<Rightarrow>
               if startswith s ''NaN'' then Inr (JFloat ''NaN'', drop 3 s)
               else if startswith s ''Infinity'' then Inr (JFloat ''Infinity'', drop 8 s)
               else if startswith s ''-Infinity'' then Inr (JFloat ''-Infinity'', drop 9 s)
               else Inl JSONDecodeError))"

subsection \<open>The parser\<close>

text \<open>
  The text as tokens, white space skipped between them; where no token can be read, the
  token \<open>Bad e\<close> ends the list. A scalar always consumes at least one character
  (\<open>lex_scalar_consumes\<close> below), so the last branch is never taken.
\<close>

fun lex :: "string \<Rightarrow> tok list" where
  "lex [] = []"
| "lex (c # cs) =
     (if json_ws c then lex cs
      else if c = CHR ''{'' then LBrace # lex cs
      else if c = CHR ''}'' then RBrace # lex cs
      else if c = CHR ''['' then LBrack # lex cs
      else if c = CHR '']'' then RBrack # lex cs
      else if c = CHR '':'' then Colon # lex cs
      else if c = CHR '','' then Comma # lex cs
      else (case lex_scalar (c # cs) of
              Inl e \<Rightarrow> [Bad e]
            | Inr (v, rest) \<Rightarrow>
               if length rest < length (c # cs) then Scalar v # lex rest
               else [Bad JSONDecodeError]))"

text \<open>
  The containers that are open, innermost first: a list with its items so far, a dict
  waiting for a key or for a comma, a dict waiting for the value of a key.
\<close>

datatype frame =
    InArr "json list"
  | InObj "(string \<times> json) list"
  | InKey "(string \<times> json) list" string

datatype expect =
    WantValue | WantValueOrClose | WantKey | WantKeyOrClose | WantColon | WantCommaOrClose
  | Finished json

text \<open>A value is complete: it goes into the innermost open container, or it is the result.\<close>

fun deliver :: "json \<Rightarrow> frame list \<Rightarrow> pyerror + frame list \<times> expect" where
  "deliver v [] = Inr ([], Finished v)"
| "deliver v (InArr xs # st) = Inr (InArr (xs @ [v]) # st, WantCommaOrClose)"
| "deliver v (InKey kvs k # st) = Inr (InObj (dict_set kvs k v) # st, WantCommaOrClose)"
| "deliver v (InObj kvs # st) = Inl JSONDecodeError"

text \<open>A container opens, unless too many are open already.\<close>

definition push :: "frame \<Rightarrow> expect \<Rightarrow> frame list \<Rightarrow> pyerror + frame list \<times> expect" where
  "push f ex st = (if nesting_limit \<le> length st then Inl OutsideModel else Inr (f # st, ex))"

definition open_value :: "frame list \<Rightarrow> tok \<Rightarrow> pyerror + frame list \<times> expect" where
  "open_value st t =
     (case t of
        Scalar v \<Rightarrow> deliver v st
      | LBrack \<Rightarrow> push (InArr []) WantValueOrClose st
      | LBrace \<Rightarrow> push (InObj []) WantKeyOrClose st
      | Bad e \<Rightarrow> Inl e
      | _ \<Rightarrow> Inl JSONDecodeError)"

definition close_arr :: "frame list \<Rightarrow> pyerror + frame list \<times> expect" where
  "close_arr st = (case st of InArr xs # st' \<Rightarrow> deliver (JArr xs) st' | _ \<Rightarrow> Inl JSONDecodeError)"

definition close_obj :: "frame list \<Rightarrow> pyerror + frame list \<times> expect" where
  "close_obj st = (case st of InObj kvs # st' \<Rightarrow> deliver (JObj kvs) st' | _ \<Rightarrow> Inl JSONDecodeError)"

definition take_key :: "frame list \<Rightarrow> tok \<Rightarrow> pyerror + frame list \<times> expect" where
  "take_key st t =
     (case t of
        Scalar (JStr k) \<Rightarrow>
          (case st of
             InObj kvs # st' \<Rightarrow> Inr (InKey kvs k # st', WantColon)
           | _ \<Rightarrow> Inl JSONDecodeError)
      | Bad e \<Rightarrow> Inl e
      | _ \<Rightarrow> Inl JSONDecodeError)"

text \<open>
  One token. Where a value or a key is expected, the scanner reads a scalar, and \<open>Bad e\<close>
  is its error; anywhere else only the next character is looked at, and any token that
  does not fit is a \<open>JSONDecodeError\<close>.
\<close>

definition pstep :: "frame list \<times> expect \<Rightarrow> tok \<Rightarrow> pyerror + frame list \<times> expect" where
  "pstep cfg t =
     (case cfg of (st, ex) \<Rightarrow>
       (case ex of
          WantValue \<Rightarrow> open_value st t
        | WantValueOrClose \<Rightarrow> if t = RBrack then close_arr st else open_value st t
        | WantKey \<Rightarrow> take_key st t
        | WantKeyOrClose \<Rightarrow> if t = RBrace then close_obj st else take_key st t
        | WantColon \<Rightarrow> if t = Colon then Inr (st, WantValue) else Inl JSONDecodeError
        | WantCommaOrClose \<Rightarrow>
            if t = Comma then
              (case st of
                 InArr xs # st' \<Rightarrow> Inr (st, WantValue)
               | InObj kvs # st' \<Rightarrow> Inr (st, WantKey)
               | _ \<Rightarrow> Inl JSONDecodeError)
            else if t = RBrack then close_arr st
            else if t = RBrace then close_obj st
            else Inl JSONDecodeError
        | Finished v \<Rightarrow> Inl JSONDecodeError))"

fun prun :: "frame list \<times> expect \<Rightarrow> tok list \<Rightarrow> pyerror + json" where
  "prun cfg [] = (case cfg of ([], Finished v) \<Rightarrow> Inr v | _ \<Rightarrow> Inl JSONDecodeError)"
| "prun cfg (t # ts) = (case pstep cfg t of Inl e \<Rightarrow> Inl e | Inr cfg' \<Rightarrow> prun cfg' ts)"

text \<open>\<open>json.loads(s)\<close>: the value, or the exception.\<close>

definition json_loads :: "string \<Rightarrow> pyerror + json" where
  "json_loads s = prun ([], WantValue) (lex s)"

section \<open>The tolerant parser of model output\<close>

text \<open>\<open>r"```(?:json)?\s*\n?(.*?)```"\<close> under \<open>re.DOTALL\<close>\<close>

definition pat_fence :: re where
  "pat_fence = Seq (Lit ''```'')
                 (Seq (Opt (Lit ''json''))
                   (Seq (Rep CSpace 0 True)
                     (Seq (Opt (Lit [CHR 0x0A]))
                       (Seq (Group (Rep CAny 0 False)) (Lit ''```'')))))"

text \<open>\<open>r"\{.*\}"\<close> under \<open>re.DOTALL\<close>\<close>

definition pat_braces :: re where
  "pat_braces = Seq (Lit ''{'') (Seq (Rep CAny 0 True) (Lit ''}''))"

text \<open>
  The first lines of \<open>parse_json_response\<close>: \<open>text\<close> is stripped, and replaced by the
  stripped contents of the first fenced block if there is one.
\<close>

definition candidate :: "string \<Rightarrow> pyerror + string" where
  "candidate text =
     (case re_search pat_fence (strip text) of
        None \<Rightarrow> Inr (strip text)
      | Some m \<Rightarrow> (case group1 m of None \<Rightarrow> Inl AttributeError | Some g \<Rightarrow> Inr (strip g)))"

text \<open>
  The fallback runs on the same variable \<open>text\<close>, so on the candidate. Only
  \<open>JSONDecodeError\<close> is caught.
\<close>

definition parse_json_response :: "string \<Rightarrow> pyerror + json" where
  "parse_json_response text =
     (case candidate text of
        Inl e \<Rightarrow> Inl e
      | Inr cand \<Rightarrow>
         (case json_loads cand of
            Inr v \<Rightarrow> Inr v
          | Inl e \<Rightarrow>
             if e = JSONDecodeError then
               (case re_search pat_braces cand of
                  None \<Rightarrow> Inr (JObj [])
                | Some m \<Rightarrow>
                   (case json_loads (group0 m) of
                      Inr v \<Rightarrow> Inr v
                    | Inl e' \<Rightarrow> if e' = JSONDecodeError then Inr (JObj []) else Inl e'))
             else Inl e))"

text \<open>
  The region \<open>\{.*\}\<close> describes: from the first \<open>{\<close> of the text to the last \<open>}\<close> after it.
\<close>

definition brace_region :: "string \<Rightarrow> string option" where
  "brace_region s =
     (let s1 = dropWhile (\<lambda>c. c \<noteq> CHR ''{'') s
      in if CHR ''}'' \<in> set s1
         then Some (rev (dropWhile (\<lambda>c. c \<noteq> CHR ''}'') (rev s1)))
         else None)"

section \<open>The document and its rendering\<close>

text \<open>
  \<open>s.replace(old, new)\<close>: the occurrences of \<open>old\<close> are replaced from the left, and the scan
  goes on after each one (\<open>drop (length old - 1) cs\<close> is \<open>s[len(old):]\<close> for \<open>s = c # cs\<close>).
  With an empty \<open>old\<close>, \<open>new\<close> is put before every character and at the end.
\<close>

fun str_replace :: "string \<Rightarrow> string \<Rightarrow> string \<Rightarrow> string" where
  "str_replace old new [] = (if old = [] then new else [])"
| "str_replace old new (c # cs) =
     (if old = [] then new @ c # str_replace old new cs
      else if startswith (c # cs) old then new @ str_replace old new (drop (length old - 1) cs)
      else c # str_replace old new cs)"

text \<open>
  The Document of the spec (section 3). A key that is missing from a mapping is \<open>None\<close>;
  the section kind is the string under the key \<open>type\<close>.
\<close>

record doc_subsection =
  sub_title :: "string option"
  sub_bullets :: "string list option"

record entry =
  left_primary :: "string option"
  right_primary :: "string option"
  left_secondary :: "string option"
  right_secondary :: "string option"
  subsections :: "doc_subsection list option"
  bullets :: "string list option"

record doc_section =
  title :: "string option"
  kind :: "string option"
  content :: "string option"
  entries :: "entry list option"
  lines :: "string list option"

text \<open>
  The mapping \<open>data\<close> that \<open>render_resume_html\<close> receives: the three keys it reads, typed as
  the Document types them, and every other key (\<open>match_notes\<close>, ...) with its JSON value.
\<close>

record resume_data =
  name :: "string option"
  contact_line :: "string option"
  sections :: "doc_section list option"
  other_keys :: "(string \<times> json) list"

text \<open>\<open>d.get(k, "")\<close> and \<open>d.get(k, [])\<close>.\<close>

definition get_str :: "string option \<Rightarrow> string" where
  "get_str v = (case v of None \<Rightarrow> [] | Some s \<Rightarrow> s)"

definition get_list :: "'a list option \<Rightarrow> 'a list" where
  "get_list v = (case v of None \<Rightarrow> [] | Some xs \<Rightarrow> xs)"

text \<open>
  The ChangeMarker transform, the last lines of \<open>render_resume_html\<close>: two replacements,
  one after the other.
\<close>

definition mark :: "bool \<Rightarrow> string \<Rightarrow> string" where
  "mark highlight_changes html =
     (if highlight_changes
      then str_replace '']]'' ''</span>'' (str_replace ''[['' ''<span class=\"changed\">'' html)
      else str_replace '']]'' [] (str_replace ''[['' [] html))"

text \<open>
  \<open>render_resume_html\<close>. The template file is not part of the sources: \<open>tmpl\<close> is the function
  from \<open>name\<close>, \<open>contact_line\<close> and \<open>sections\<close> to text that \<open>Template(...).render\<close> computes
  from it.
\<close>

definition template_render ::
    "(string \<Rightarrow> string \<Rightarrow> doc_section list \<Rightarrow> string) \<Rightarrow> resume_data \<Rightarrow> string" where
  "template_render tmpl data =
     tmpl (get_str (name data)) (get_str (contact_line data)) (get_list (sections data))"

definition render_resume_html ::
    "(string \<Rightarrow> string \<Rightarrow> doc_section list \<Rightarrow> string) \<Rightarrow> resume_data \<Rightarrow> bool \<Rightarrow> string" where
  "render_resume_html tmpl data highlight_changes =
     mark highlight_changes (template_render tmpl data)"

subsection \<open>A call of \<open>render_resume_html\<close> in a state of the world\<close>





subsection \<open>The template\<close>

text \<open>
  Modelled from the spec: \<open>resume_template.html\<close>, which is missing from the sources. The
  spec (section 4.4) gives its structure: a header with the name and the contact line,
  then for each section, in order, a block chosen by the kind of the section (a prose
  block; a two-column entry list with nested sub-bullets; a line list), an unknown kind
  giving an empty block and a missing key an empty string. Values are inserted as they
  are (lines may hold \<open><b>\<close> spans, and the markers must reach the output). The spec
  does not give the tags; the ones below are the least that shows this structure.
\<close>

definition bullet_list :: "string list \<Rightarrow> string" where
  "bullet_list bs = ''<ul>'' @ concat (map (\<lambda>b. ''<li>'' @ b @ ''</li>'') bs) @ ''</ul>''"

definition subsection_block :: "doc_subsection \<Rightarrow> string" where
  "subsection_block ss =
     ''<div><h4>'' @ get_str (sub_title ss) @ ''</h4>''
       @ bullet_list (get_list (sub_bullets ss)) @ ''</div>''"

definition entry_block :: "entry \<Rightarrow> string" where
  "entry_block e =
     ''<div><table><tr><td>'' @ get_str (left_primary e) @ ''</td><td>''
       @ get_str (right_primary e) @ ''</td></tr><tr><td>''
       @ get_str (left_secondary e) @ ''</td><td>''
       @ get_str (right_secondary e) @ ''</td></tr></table>''
       @ concat (map subsection_block (get_list (subsections e)))
       @ bullet_list (get_list (bullets e)) @ ''</div>''"

definition section_body :: "doc_section \<Rightarrow> string" where
  "section_body s =
     (if kind s = Some ''text'' then ''<p>'' @ get_str (content s) @ ''</p>''
      else if kind s = Some ''experience'' then concat (map entry_block (get_list (entries s)))
      else if kind s = Some ''list''
        then concat (map (\<lambda>l. ''<p>'' @ l @ ''</p>'') (get_list (lines s)))
      else [])"

definition section_block :: "doc_section \<Rightarrow> string" where
  "section_block s =
     ''<section><h2>'' @ get_str (title s) @ ''</h2>'' @ section_body s @ ''</section>''"

definition page_head :: "string \<Rightarrow> string \<Rightarrow> string" where
  "page_head nm contact = ''<html><body><h1>'' @ nm @ ''</h1><p>'' @ contact @ ''</p>''"

definition page_foot :: string where
  "page_foot = ''</body></html>''"

definition resume_template :: "string \<Rightarrow> string \<Rightarrow> doc_section list \<Rightarrow> string" where
  "resume_template nm contact secs =
     page_head nm contact @ concat (map section_block secs) @ page_foot"

subsection \<open>Markers in a text\<close>


definition is_bracket :: "char \<Rightarrow> bool" where
  "is_bracket c = (c = CHR ''['' \<or> c = CHR '']'')"





text \<open>No field of the document holds a marker delimiter.\<close>

definition marker_free :: "string \<Rightarrow> bool" where
  "marker_free s = (\<not> contains s ''[['' \<and> \<not> contains s '']]'')"

definition subsection_marker_free :: "doc_subsection \<Rightarrow> bool" where
  "subsection_marker_free ss =
     (marker_free (get_str (sub_title ss)) \<and> list_all marker_free (get_list (sub_bullets ss)))"

definition entry_marker_free :: "entry \<Rightarrow> bool" where
  "entry_marker_free e =
     (marker_free (get_str (left_primary e)) \<and> marker_free (get_str (right_primary e))
      \<and> marker_free (get_str (left_secondary e)) \<and> marker_free (get_str (right_secondary e))
      \<and> list_all subsection_marker_free (get_list (subsections e))
      \<and> list_all marker_free (get_list (bullets e)))"

definition section_marker_free :: "doc_section \<Rightarrow> bool" where
  "section_marker_free s =
     (marker_free (get_str (title s)) \<and> marker_free (get_str (content s))
      \<and> list_all entry_marker_free (get_list (entries s))
      \<and> list_all marker_free (get_list (lines s)))"

definition document_marker_free :: "resume_data \<Rightarrow> bool" where
  "document_marker_free d =
     (marker_free (get_str (name d)) \<and> marker_free (get_str (contact_line d))
      \<and> list_all section_marker_free (get_list (sections d)))"

text \<open>
  A text is sealed when it holds no delimiter and neither starts nor ends with a bracket:
  no delimiter can form where it meets another text.
\<close>

definition sealed :: "string \<Rightarrow> bool" where
  "sealed s = (marker_free s \<and> s \<noteq> [] \<and> \<not> is_bracket (hd s) \<and> \<not> is_bracket (last s))"

text \<open>
  The fields C9 names: \<open>content\<close>, \<open>bullets\<close>, \<open>lines\<close>, \<open>name\<close> and \<open>contact_line\<close>.
\<close>

definition named_fields_marker_free :: "resume_data \<Rightarrow> bool" where
  "named_fields_marker_free d =
     (marker_free (get_str (name d)) \<and> marker_free (get_str (contact_line d))
      \<and> list_all (\<lambda>s.
            marker_free (get_str (content s))
            \<and> list_all marker_free (get_list (lines s))
            \<and> list_all (\<lambda>e.
                  list_all marker_free (get_list (bullets e))
                  \<and> list_all (\<lambda>ss. list_all marker_free (get_list (sub_bullets ss)))
                       (get_list (subsections e)))
                 (get_list (entries s)))
          (get_list (sections d)))"

subsection \<open>The section blocks of an output\<close>


text \<open>
  A text holds no section tag when each \<open><\<close> in it opens a tag, or closes one, whose name
  does not begin with \<open>se\<close>, and the characters that show it are no brackets (removing a
  delimiter cannot change them). \<open>tag_name_ok\<close> reads the name, \<open>after_lt\<close> the text after
  a \<open><\<close>.
\<close>

definition tag_name_ok :: "string \<Rightarrow> bool" where
  "tag_name_ok s =
     (case s of
        [] \<Rightarrow> False
      | x # xs \<Rightarrow>
         \<not> is_bracket x
         \<and> (x \<noteq> CHR ''s''
            \<or> (case xs of [] \<Rightarrow> False | y # ys \<Rightarrow> \<not> is_bracket y \<and> y \<noteq> CHR ''e'')))"

definition after_lt :: "string \<Rightarrow> bool" where
  "after_lt s =
     (case s of
        [] \<Rightarrow> False
      | x # xs \<Rightarrow> if x = CHR ''/'' then tag_name_ok xs else tag_name_ok (x # xs))"

fun no_section_tag :: "string \<Rightarrow> bool" where
  "no_section_tag [] = True"
| "no_section_tag (c # cs) = ((c \<noteq> CHR ''<'' \<or> after_lt cs) \<and> no_section_tag cs)"





text \<open>
  A text is framed, for a value of the flag, when neither of its ends is a bracket and
  its marker transform holds no section tag.
\<close>

definition framed :: "bool \<Rightarrow> string \<Rightarrow> bool" where
  "framed h x =
     (x \<noteq> [] \<and> \<not> is_bracket (hd x) \<and> \<not> is_bracket (last x) \<and> no_section_tag (mark h x))"

section \<open>Scraping a job description\<close>

subsection \<open>The network and the HTML parser\<close>

text \<open>
  \<open>requests.get\<close> and \<open>BeautifulSoup\<close> are the environment of the code. A response has
  \<open>resp.ok\<close> and \<open>resp.text\<close>. An element is the list of its text nodes, in document
  order, which is all \<open>get_text\<close> reads. Of a parsed page the code reads the strings of
  its JSON-LD scripts (\<open>script.string\<close>, which may be \<open>None\<close>), \<open>select_one\<close>, the
  \<open>body\<close> element and the text nodes of the whole page.
\<close>

record response =
  ok :: bool
  resp_text :: string

type_synonym element = "string list"

record soup =
  ld_json_scripts :: "string option list"
  select_one :: "string \<Rightarrow> element option"
  find_body :: "element option"
  all_strings :: "string list"

text \<open>
  \<open>http_get url\<close> is \<open>None\<close> when \<open>requests.get\<close> raises. \<open>repr_value\<close> is what an f-string
  shows for a JSON value that is no string.
\<close>

record world =
  http_get :: "string \<Rightarrow> response option"
  parse_html :: "string \<Rightarrow> soup"
  repr_value :: "json \<Rightarrow> string"

text \<open>
  \<open>el.get_text(separator, strip)\<close>: the text nodes joined by the separator; with \<open>strip\<close>,
  each node is stripped and the empty ones are left out.
\<close>

definition get_text :: "string \<Rightarrow> bool \<Rightarrow> element \<Rightarrow> string" where
  "get_text sep strp el =
     join sep (if strp then filter (\<lambda>s. s \<noteq> []) (map strip el) else el)"

definition py_str :: "world \<Rightarrow> json \<Rightarrow> string" where
  "py_str w v = (case v of JStr s \<Rightarrow> s | _ \<Rightarrow> repr_value w v)"

subsection \<open>\<open>urlparse(url).netloc\<close>\<close>

definition scheme_char :: "char \<Rightarrow> bool" where
  "scheme_char c = (let n = (of_char c :: nat) in
     (97 \<le> n \<and> n \<le> 122) \<or> (65 \<le> n \<and> n \<le> 90) \<or> (48 \<le> n \<and> n \<le> 57)
     \<or> c = CHR ''+'' \<or> c = CHR ''-'' \<or> c = CHR ''.'')"

definition ascii_alpha :: "char \<Rightarrow> bool" where
  "ascii_alpha c = (let n = (of_char c :: nat) in
     (97 \<le> n \<and> n \<le> 122) \<or> (65 \<le> n \<and> n \<le> 90))"

text \<open>
  \<open>urlsplit\<close>, as far as the network location: leading control characters and spaces
  and every tab, carriage return and newline are removed, a scheme is split off, and after
  \<open>//\<close> the location runs to the first of \<open>/ ? #\<close>. A location with one kind of square
  bracket only raises \<open>ValueError\<close>.
\<close>

definition urlparse_netloc :: "string \<Rightarrow> pyerror + string" where
  "urlparse_netloc url =
     (let url1 = filter (\<lambda>c. c \<noteq> CHR 0x09 \<and> c \<noteq> CHR 0x0D \<and> c \<noteq> CHR 0x0A)
                   (dropWhile (\<lambda>c. (of_char c :: nat) \<le> 32) url);
          i = length (takeWhile (\<lambda>c. c \<noteq> CHR '':'') url1);
          url2 = (if CHR '':'' \<in> set url1 \<and> 0 < i \<and> ascii_alpha (hd url1)
                     \<and> list_all scheme_char (take i url1)
                  then drop (Suc i) url1 else url1)
      in if take 2 url2 = ''//'' then
           (let netloc = takeWhile (\<lambda>c. c \<noteq> CHR ''/'' \<and> c \<noteq> CHR ''?'' \<and> c \<noteq> CHR ''#'')
                           (drop 2 url2)
            in if (CHR ''['' \<in> set netloc \<and> CHR '']'' \<notin> set netloc)
                  \<or> (CHR '']'' \<in> set netloc \<and> CHR ''['' \<notin> set netloc)
               then Inl ValueError
               else if CHR ''['' \<in> set netloc then Inl OutsideModel
               else Inr netloc)
         else Inr [])"

subsection \<open>\<open>_scrape_linkedin_guest_api\<close>\<close>

definition labelled :: "string \<Rightarrow> string \<Rightarrow> bool \<Rightarrow> element option \<Rightarrow> string list" where
  "labelled label sep strp el =
     (case el of None \<Rightarrow> [] | Some e \<Rightarrow> [label @ get_text sep strp e])"

definition scrape_linkedin_guest_api :: "world \<Rightarrow> string \<Rightarrow> string option" where
  "scrape_linkedin_guest_api w job_id =
     (case http_get w (''https://www.linkedin.com/jobs-guest/jobs/api/jobPosting/'' @ job_id) of
        None \<Rightarrow> None
      | Some resp \<Rightarrow>
         if ok resp \<and> 200 < length (resp_text resp) then
           (let sp = parse_html w (resp_text resp);
                parts =
                  labelled ''Job Title: '' [] True (select_one sp ''h2.top-card-layout__title'')
                  @ labelled ''Company: '' [] True
                      (select_one sp ''a.topcard__org-name-link, span.topcard__flavor'')
                  @ labelled ''Location: '' [] True (select_one sp ''span.topcard__flavor--bullet'')
                  @ labelled [CHR 0x0A] [CHR 0x0A] True
                      (select_one sp
                        ''div.show-more-less-html__markup, div.description__text, section.show-more-less-html'');
                text = join [CHR 0x0A] parts
            in if 100 < length text then Some text else None)
         else None)"

subsection \<open>\<open>scrape_job_url\<close>\<close>

text \<open>
  The body of the inner \<open>try\<close> for one JSON-LD script: \<open>Inr (Some t)\<close> is \<open>return t\<close>,
  \<open>Inr None\<close> falls through to the next script, \<open>Inl e\<close> is an exception.
\<close>

definition ld_script :: "world \<Rightarrow> string option \<Rightarrow> pyerror + string option" where
  "ld_script w script_string =
     (case json_loads (case script_string of None \<Rightarrow> [] | Some s \<Rightarrow> s) of
        Inl e \<Rightarrow> Inl e
      | Inr data0 \<Rightarrow>
         (case (case data0 of
                  JArr xs \<Rightarrow> (case xs of [] \<Rightarrow> Inl IndexError | x # _ \<Rightarrow> Inr x)
                | _ \<Rightarrow> Inr data0) of
            Inl e \<Rightarrow> Inl e
          | Inr data \<Rightarrow>
             (case data of
                JObj kvs \<Rightarrow>
                  if dict_get kvs ''@type'' JNull = JStr ''JobPosting'' then
                    (let desc = dict_get kvs ''description'' (JStr []);
                         title = dict_get kvs ''title'' (JStr []);
                         org = dict_get kvs ''hiringOrganization'' (JObj []);
                         company = (case org of
                                      JObj okvs \<Rightarrow> dict_get okvs ''name'' (JStr [])
                                    | _ \<Rightarrow> JStr []);
                         text = ''Job Title: '' @ py_str w title @ [CHR 0x0A] @ ''Company: ''
                                  @ py_str w company @ [CHR 0x0A, CHR 0x0A] @ py_str w desc;
                         clean = get_text [CHR 0x0A] False (all_strings (parse_html w text))
                     in if 100 < length clean then Inr (Some (strip clean)) else Inr None)
                  else Inr None
              | _ \<Rightarrow> Inr None)))"

text \<open>The loop over the scripts: \<open>JSONDecodeError\<close> and \<open>AttributeError\<close> go on to the next.\<close>

fun ld_loop :: "world \<Rightarrow> string option list \<Rightarrow> pyerror + string option" where
  "ld_loop w [] = Inr None"
| "ld_loop w (sc # rest) =
     (case ld_script w sc of
        Inl e \<Rightarrow> if e = JSONDecodeError \<or> e = AttributeError then ld_loop w rest else Inl e
      | Inr None \<Rightarrow> ld_loop w rest
      | Inr (Some t) \<Rightarrow> Inr (Some t))"

definition content_selectors :: "string list" where
  "content_selectors =
     [''div.show-more-less-html__markup'', ''div.description__text'',
      ''div.job-description'', ''div.jobsearch-jobDescriptionText'',
      ''div[data-testid='jobDescription']'', ''article'', ''main'']"

fun selector_loop :: "soup \<Rightarrow> string list \<Rightarrow> string option" where
  "selector_loop sp [] = None"
| "selector_loop sp (sel # rest) =
     (case select_one sp sel of
        None \<Rightarrow> selector_loop sp rest
      | Some el \<Rightarrow>
         if 200 < length (get_text [] True el) then Some (get_text [CHR 0x0A] True el)
         else selector_loop sp rest)"

definition body_text :: "soup \<Rightarrow> string option" where
  "body_text sp =
     (case find_body sp of
        None \<Rightarrow> None
      | Some b \<Rightarrow>
         (let text = get_text [CHR 0x0A] True b in if 200 < length text then Some text else None))"

text \<open>The first \<open>try\<close> block: the page itself.\<close>

definition scrape_page :: "world \<Rightarrow> string \<Rightarrow> pyerror + string option" where
  "scrape_page w url =
     (case http_get w url of
        None \<Rightarrow> Inl RequestException
      | Some resp \<Rightarrow>
         if \<not> ok resp then Inl HTTPError
         else
           (let sp = parse_html w (resp_text resp)
            in case ld_loop w (ld_json_scripts sp) of
                 Inl e \<Rightarrow> Inl e
               | Inr (Some t) \<Rightarrow> Inr (Some t)
               | Inr None \<Rightarrow>
                  (case selector_loop sp content_selectors of
                     Some t \<Rightarrow> Inr (Some t)
                   | None \<Rightarrow> Inr (body_text sp))))"

text \<open>The second \<open>try\<close> block: the cached copy.\<close>

definition scrape_cache :: "world \<Rightarrow> string \<Rightarrow> string option" where
  "scrape_cache w url =
     (case http_get w (''https://webcache.googleusercontent.com/search?q=cache:'' @ url) of
        None \<Rightarrow> None
      | Some resp \<Rightarrow> if ok resp then body_text (parse_html w (resp_text resp)) else None)"

definition scrape_linkedin :: "world \<Rightarrow> string \<Rightarrow> string \<Rightarrow> string option" where
  "scrape_linkedin w netloc url =
     (if contains netloc ''linkedin.com'' then
        (case extract_linkedin_job_id url of
           None \<Rightarrow> None
         | Some job_id \<Rightarrow>
            if job_id \<noteq> [] then
              (case scrape_linkedin_guest_api w job_id of
                 None \<Rightarrow> None
               | Some result \<Rightarrow> if result \<noteq> [] then Some result else None)
            else None)
      else None)"

text \<open>
  \<open>scrape_job_url\<close>: \<open>Inr\<close> is the value returned, \<open>Inl\<close> an exception that reaches the
  caller. \<open>except Exception: pass\<close> catches every Python exception of the first block.
\<close>

definition scrape_job_url :: "world \<Rightarrow> string \<Rightarrow> pyerror + string option" where
  "scrape_job_url w url =
     (if url = [] \<or> \<not> startswith url ''http'' then Inr None
      else
        (case urlparse_netloc url of
           Inl e \<Rightarrow> Inl e
         | Inr netloc \<Rightarrow>
            (case scrape_linkedin w netloc url of
               Some result \<Rightarrow> Inr (Some result)
             | None \<Rightarrow>
                (case scrape_page w url of
                   Inr (Some t) \<Rightarrow> Inr (Some t)
                 | Inr None \<Rightarrow> Inr (scrape_cache w url)
                 | Inl e \<Rightarrow> if e = OutsideModel then Inl e else Inr (scrape_cache w url)))))"

subsection \<open>Two pages\<close>

text \<open>
  A page that parses as text only, and the environment of a site that serves one page at
  one address and fails every other request.
\<close>

definition text_soup :: "string \<Rightarrow> soup" where
  "text_soup t =
     \<lparr>ld_json_scripts = [], select_one = (\<lambda>sel. None), find_body = None, all_strings = [t]\<rparr>"

definition one_page_world :: "string \<Rightarrow> string \<Rightarrow> soup \<Rightarrow> world" where
  "one_page_world url html sp =
     \<lparr>http_get = (\<lambda>u. if u = url then Some \<lparr>ok = True, resp_text = html\<rparr> else None),
      parse_html = (\<lambda>t. if t = html then sp else text_soup t),
      repr_value = (\<lambda>v. [])\<rparr>"

text \<open>
  A page with one JSON-LD job posting whose description is 100 spaces, and nothing else.
\<close>

definition padded_posting :: string where
  "padded_posting =
     ''{\"@type\": \"JobPosting\", \"title\": \"Dev\", \"description\": \"''
       @ replicate 100 (CHR '' '') @ ''\"}''"

definition padded_world :: world where
  "padded_world =
     one_page_world ''http://example.com/job'' ''<html>padded</html>''
       \<lparr>ld_json_scripts = [Some padded_posting], select_one = (\<lambda>sel. None),
        find_body = None, all_strings = []\<rparr>"

text \<open>
  A page with a JSON-LD script that holds the empty list, and an \<open>article\<close> element with
  300 characters of text.
\<close>

definition article_soup :: soup where
  "article_soup =
     \<lparr>ld_json_scripts = [Some ''[]''],
      select_one = (\<lambda>sel. if sel = ''article'' then Some [replicate 300 (CHR ''x'')] else None),
      find_body = Some [replicate 300 (CHR ''x'')],
      all_strings = [replicate 300 (CHR ''x'')]\<rparr>"

definition article_world :: world where
  "article_world = one_page_world ''http://example.com/job'' ''<html>article</html>'' article_soup"

section \<open>\<open>json.loads\<close>: every scalar consumes input\<close>

lemma scan_string_shorter:
  "scan_string cs = Inr (str, r) \<Longrightarrow> length r < length cs"
proof (induction cs arbitrary: str r rule: scan_string.induct)
  case 1
  then show ?case by simp
next
  case (2 c cs)
  then show ?case
    by (auto simp: prepend_def split: if_splits list.splits option.splits sum.splits prod.splits)
      fastforce+
qed

lemma lex_int_part_shorter: "lex_int_part s = Some (ip, r) \<Longrightarrow> length r < length s"
  by (auto simp: lex_int_part_def less_Suc_eq_le length_dropWhile_le split: list.splits if_splits)

lemma lex_frac_shorter: "lex_frac s = (fr, r) \<Longrightarrow> length r \<le> length s"
  by (auto simp: lex_frac_def le_SucI length_dropWhile_le split: list.splits if_splits)

lemma lex_exp_shorter: "lex_exp s = (ex, r) \<Longrightarrow> length r \<le> length s"
proof -
  have a: "length (dropWhile py_isdigit xs) \<le> Suc (length xs)" for xs
    using length_dropWhile_le [of py_isdigit xs] by simp
  have b: "length (dropWhile py_isdigit xs) \<le> Suc (Suc (length xs))" for xs
    using length_dropWhile_le [of py_isdigit xs] by simp
  show "lex_exp s = (ex, r) \<Longrightarrow> length r \<le> length s"
    by (auto simp: lex_exp_def Let_def a b split: list.splits if_splits)
qed

lemma lex_number_shorter: "lex_number s = Some (v, r) \<Longrightarrow> length r < length s"
proof -
  assume a: "lex_number s = Some (v, r)"
  let ?s1 = "if s \<noteq> [] \<and> hd s = CHR ''-'' then tl s else s"
  from a obtain ip r1 where i: "lex_int_part ?s1 = Some (ip, r1)"
    by (auto simp: lex_number_def Let_def split: option.splits)
  obtain fr r2 where f: "lex_frac r1 = (fr, r2)" by (cases "lex_frac r1")
  obtain ex r3 where e: "lex_exp r2 = (ex, r3)" by (cases "lex_exp r2")
  from a i f e have r: "r = r3" by (auto simp: lex_number_def Let_def split: if_splits)
  have "length ?s1 \<le> length s" by simp
  then show ?thesis
    unfolding r
    using lex_int_part_shorter [OF i] lex_frac_shorter [OF f] lex_exp_shorter [OF e] by linarith
qed

lemma startswith_drop_shorter:
  "startswith s p \<Longrightarrow> p \<noteq> [] \<Longrightarrow> length (drop (length p) s) < length s"
  by (cases s) (auto simp: startswith_def)

lemma lex_scalar_consumes:
  assumes "lex_scalar s = Inr (v, rest)"
  shows "length rest < length s"
proof (cases "startswith s [CHR 0x22]")
  case True
  with assms obtain str where "scan_string (tl s) = Inr (str, rest)"
    by (auto simp: lex_scalar_def split: sum.splits)
  from scan_string_shorter [OF this] show ?thesis by (cases s) auto
next
  case False
  show ?thesis
  proof (cases "lex_number s")
    case (Some p)
    with assms False lex_number_shorter [of s "Inr v" rest]
      startswith_drop_shorter [of s "''null''"] startswith_drop_shorter [of s "''true''"]
      startswith_drop_shorter [of s "''false''"]
    show ?thesis by (auto simp: lex_scalar_def split: if_splits prod.splits sum.splits)
  next
    case None
    with assms False
      startswith_drop_shorter [of s "''null''"] startswith_drop_shorter [of s "''true''"]
      startswith_drop_shorter [of s "''false''"] startswith_drop_shorter [of s "''NaN''"]
      startswith_drop_shorter [of s "''Infinity''"] startswith_drop_shorter [of s "''-Infinity''"]
    show ?thesis by (auto simp: lex_scalar_def split: if_splits)
  qed
qed

section \<open>The LinkedIn job identifier: properties\<close>

lemma re_search_Some:
  "re_search r s = Some m \<Longrightarrow> \<exists>pre suf. s = pre @ suf \<and> match_at r suf = Some m"
proof (induction s)
  case Nil
  then show ?case by simp
next
  case (Cons c cs)
  show ?case
  proof (cases "match_at r (c # cs)")
    case None
    with Cons.prems have "re_search r cs = Some m" by simp
    from Cons.IH [OF this] obtain pre suf where "cs = pre @ suf" "match_at r suf = Some m"
      by blast
    then have "c # cs = (c # pre) @ suf \<and> match_at r suf = Some m" by simp
    then show ?thesis by blast
  next
    case (Some m')
    with Cons.prems have "m' = m" by simp
    with Some have "c # cs = [] @ (c # cs) \<and> match_at r (c # cs) = Some m" by simp
    then show ?thesis by blast
  qed
qed

lemma match_at_Some:
  "match_at r s = Some m \<Longrightarrow> \<exists>rest more. rmatch r s = (group1 m, rest) # more"
  by (auto simp: match_at_def split: list.splits)

lemma concat_map_hd:
  "concat (map f xs) = y # ys \<Longrightarrow> \<exists>x \<in> set xs. \<exists>zs. f x = y # zs"
proof (induction xs)
  case Nil
  then show ?case by simp
next
  case (Cons a xs)
  then show ?case by (cases "f a") auto
qed

lemma rmatch_seq_hd:
  assumes "rmatch (Seq a b) s = x # xs"
  shows "\<exists>c1 s1 c2 s2 ys. (c1, s1) \<in> set (rmatch a s) \<and> rmatch b s1 = (c2, s2) # ys
            \<and> x = (later c1 c2, s2)"
proof -
  let ?f = "\<lambda>(c1, s1). map (\<lambda>(c2, s2). (later c1 c2, s2)) (rmatch b s1)"
  from assms have "concat (map ?f (rmatch a s)) = x # xs" by simp
  from concat_map_hd [OF this] obtain p zs where p: "p \<in> set (rmatch a s)"
    and f: "?f p = x # zs" by blast
  obtain c1 s1 where [simp]: "p = (c1, s1)" by (cases p)
  from f obtain q ys where "rmatch b s1 = q # ys" "x = (\<lambda>(c2, s2). (later c1 c2, s2)) q"
    by (cases "rmatch b s1") auto
  with p show ?thesis by (cases q) auto
qed

lemma rmatch_seq_set:
  "(c, r) \<in> set (rmatch (Seq a b) s) \<Longrightarrow>
     \<exists>c1 s1 c2. (c1, s1) \<in> set (rmatch a s) \<and> (c2, r) \<in> set (rmatch b s1) \<and> c = later c1 c2"
  by auto

lemma in_class_CDigit [simp]: "in_class CDigit = py_isdigit"
  by (rule ext) simp

lemma rep_counts_le: "k \<in> set (rep_counts lo hi g) \<Longrightarrow> lo \<le> k \<and> k \<le> hi"
  by (auto simp: rep_counts_def split: if_splits)

lemma rmatch_group_rep:
  "rmatch (Group (Rep c lo g)) s =
     map (\<lambda>k. (Some (take k s), drop k s)) (rep_counts lo (length (takeWhile (in_class c) s)) g)"
proof -
  have "k \<in> set (rep_counts lo (length (takeWhile (in_class c) s)) g) \<Longrightarrow>
          length s - (length s - k) = k" for k
    using rep_counts_le [of k lo "length (takeWhile (in_class c) s)" g]
      length_takeWhile_le [of "in_class c" s] by arith
  then show ?thesis by (simp add: comp_def)
qed

lemma rmatch_digits_hd:
  assumes "rmatch (Group (Rep c lo True)) s = x # xs"
  shows "x = (Some (takeWhile (in_class c) s), dropWhile (in_class c) s)
           \<and> lo \<le> length (takeWhile (in_class c) s)"
proof -
  let ?n = "length (takeWhile (in_class c) s)"
  have le: "lo \<le> ?n"
    using assms unfolding rmatch_group_rep by (cases "lo \<le> ?n") (auto simp: rep_counts_def)
  then have "rep_counts lo ?n True = ?n # rev [lo..<?n]" by (simp add: rep_counts_def)
  with assms have "x = (Some (take ?n s), drop ?n s)" unfolding rmatch_group_rep by simp
  with le show ?thesis
    using takeWhile_eq_take [of "in_class c" s] dropWhile_eq_drop [of "in_class c" s] by simp
qed

lemma rmatch_digits_set:
  "(cap, rest) \<in> set (rmatch (Group (Rep c lo True)) s) \<Longrightarrow>
     \<exists>k. lo \<le> k \<and> k \<le> length (takeWhile (in_class c) s) \<and> cap = Some (take k s) \<and> rest = drop k s"
proof -
  assume "(cap, rest) \<in> set (rmatch (Group (Rep c lo True)) s)"
  then obtain k where k: "k \<in> set (rep_counts lo (length (takeWhile (in_class c) s)) True)"
    and "cap = Some (take k s)" "rest = drop k s"
    unfolding rmatch_group_rep by auto
  with rep_counts_le [OF k] show ?thesis by blast
qed


lemma rmatch_lit_set: "(c, r) \<in> set (rmatch (Lit l) s) \<Longrightarrow> s = l @ r \<and> c = None"
  by (auto simp: startswith_def split: if_splits) (metis append_take_drop_id)

lemma rmatch_cls_set:
  "(c, r) \<in> set (rmatch (Cls cl) s) \<Longrightarrow> \<exists>x. s = x # r \<and> in_class cl x \<and> c = None"
  by (auto split: list.splits if_splits)

lemma rmatch_rep_set:
  "(c, r) \<in> set (rmatch (Rep cl lo g) s) \<Longrightarrow> \<exists>k. r = drop k s \<and> c = None"
  by auto

lemma take_eq_takeWhile:
  assumes "k \<le> length (takeWhile P t)" and "drop k t = [] \<or> \<not> P (hd (drop k t))"
  shows "take k t = takeWhile P t"
proof -
  have "\<not> k < length (takeWhile P t)"
  proof
    assume lt: "k < length (takeWhile P t)"
    then have kt: "k < length t" using length_takeWhile_le [of P t] by arith
    then have "hd (drop k t) = t ! k" by (simp add: hd_drop_conv_nth)
    also have "\<dots> = takeWhile P t ! k" using lt by (simp add: takeWhile_nth)
    finally have "P (hd (drop k t))" using lt nth_mem set_takeWhileD by metis
    with assms(2) kt show False by simp
  qed
  with assms(1) have "k = length (takeWhile P t)" by simp
  then show ?thesis using takeWhile_eq_take [of P t] by simp
qed

lemma pat_path_hd:
  assumes "rmatch pat_path s = (cap, rest) # others"
  shows "\<exists>u t. s = ''jobs/view/'' @ u @ t \<and> (u = [] \<or> last u \<in> set ''-/'')
           \<and> cap = Some (takeWhile py_isdigit t) \<and> 8 \<le> length (takeWhile py_isdigit t)"
proof -
  let ?Y = "Seq (Rep CDot 0 False) (Cls (COneOf ''-/''))"
  let ?G = "Group (Rep CDigit 8 True)"
  from assms [unfolded pat_path_def] rmatch_seq_hd
  obtain c1 s1 c2 s2 ys where a: "(c1, s1) \<in> set (rmatch (Lit ''jobs/view/'') s)"
    and b: "rmatch (Seq (Opt ?Y) ?G) s1 = (c2, s2) # ys" and c: "(cap, rest) = (later c1 c2, s2)"
    by blast
  from rmatch_lit_set [OF a] have s: "s = ''jobs/view/'' @ s1" and c1: "c1 = None" by auto
  from rmatch_seq_hd [OF b]
  obtain c3 t c4 s4 zs where d: "(c3, t) \<in> set (rmatch (Opt ?Y) s1)"
    and e: "rmatch ?G t = (c4, s4) # zs" and f: "(c2, s2) = (later c3 c4, s4)"
    by blast
  from rmatch_digits_hd [OF e] have c4: "c4 = Some (takeWhile py_isdigit t)"
    and len: "8 \<le> length (takeWhile py_isdigit t)" by auto
  from c f c4 have cap: "cap = Some (takeWhile py_isdigit t)" by (simp add: later_def)
  from d have "(c3, t) \<in> set (rmatch ?Y s1) \<or> t = s1" by auto
  then have "\<exists>u. s1 = u @ t \<and> (u = [] \<or> last u \<in> set ''-/'')"
  proof
    assume "(c3, t) \<in> set (rmatch ?Y s1)"
    from rmatch_seq_set [OF this] obtain c5 s5 c6
      where g: "(c5, s5) \<in> set (rmatch (Rep CDot 0 False) s1)"
        and h: "(c6, t) \<in> set (rmatch (Cls (COneOf ''-/'')) s5)" by blast
    from rmatch_rep_set [OF g] obtain k where k: "s5 = drop k s1" by blast
    from rmatch_cls_set [OF h] obtain x where x: "s5 = x # t" "in_class (COneOf ''-/'') x"
      by blast
    have "s1 = (take k s1 @ [x]) @ t" using k x(1) append_take_drop_id [of k s1] by simp
    moreover have "last (take k s1 @ [x]) \<in> set ''-/''" using x(2) by simp
    ultimately show ?thesis by blast
  next
    assume "t = s1"
    then show ?thesis by simp
  qed
  with s cap len show ?thesis by auto
qed

lemma pat_query_hd:
  assumes "rmatch pat_query s = (cap, rest) # others"
  shows "\<exists>t. s = ''currentJobId='' @ t
           \<and> cap = Some (takeWhile py_isdigit t) \<and> 1 \<le> length (takeWhile py_isdigit t)"
proof -
  from assms [unfolded pat_query_def] rmatch_seq_hd
  obtain c1 s1 c2 s2 ys where a: "(c1, s1) \<in> set (rmatch (Lit ''currentJobId='') s)"
    and b: "rmatch (Group (Rep CDigit 1 True)) s1 = (c2, s2) # ys"
    and c: "(cap, rest) = (later c1 c2, s2)"
    by blast
  from rmatch_lit_set [OF a] have s: "s = ''currentJobId='' @ s1" by auto
  from rmatch_digits_hd [OF b] c have "cap = Some (takeWhile py_isdigit s1)"
    and "1 \<le> length (takeWhile py_isdigit s1)" by (auto simp: later_def)
  with s show ?thesis by blast
qed

lemma trailing_tail:
  "(c, r) \<in> set (rmatch (Seq (Opt (Lit ''/'')) (Alt (Lit ''?'') Eol)) s) \<Longrightarrow>
     c = None \<and> (s = [] \<or> \<not> py_isdigit (hd s))"
  by (cases s) (auto simp: startswith_def later_def py_isdigit_def Let_def split: if_splits)

lemma pat_trailing_set:
  assumes "(cap, rest) \<in> set (rmatch pat_trailing s)"
  shows "\<exists>t. s = ''/'' @ t
           \<and> cap = Some (takeWhile py_isdigit t) \<and> 8 \<le> length (takeWhile py_isdigit t)"
proof -
  let ?T = "Seq (Opt (Lit ''/'')) (Alt (Lit ''?'') Eol)"
  from rmatch_seq_set [OF assms [unfolded pat_trailing_def]]
  obtain c1 t c2 where a: "(c1, t) \<in> set (rmatch (Lit ''/'') s)"
    and b: "(c2, rest) \<in> set (rmatch (Seq (Group (Rep CDigit 8 True)) ?T) t)"
    and c: "cap = later c1 c2" by blast
  from rmatch_lit_set [OF a] have s: "s = ''/'' @ t" by auto
  from rmatch_seq_set [OF b]
  obtain c3 r3 c4 where d: "(c3, r3) \<in> set (rmatch (Group (Rep CDigit 8 True)) t)"
    and e: "(c4, rest) \<in> set (rmatch ?T r3)" and f: "c2 = later c3 c4" by blast
  from rmatch_digits_set [OF d] obtain k where k: "8 \<le> k" "k \<le> length (takeWhile py_isdigit t)"
    "c3 = Some (take k t)" "r3 = drop k t" by auto
  from trailing_tail [OF e] have c4: "c4 = None" and nd: "r3 = [] \<or> \<not> py_isdigit (hd r3)"
    by auto
  from take_eq_takeWhile [of k py_isdigit t] k nd have tk: "take k t = takeWhile py_isdigit t"
    by simp
  with k c f c4 have "cap = Some (takeWhile py_isdigit t)" by (simp add: later_def)
  moreover from tk k(1) have "8 \<le> length (takeWhile py_isdigit t)"
    by (metis k(2) order_trans)
  ultimately show ?thesis using s by blast
qed

lemma maximal_digit_runI:
  assumes "url = pre @ t" and "pre \<noteq> []" and "\<not> py_isdigit (last pre)"
    and "takeWhile py_isdigit t \<noteq> []"
  shows "maximal_digit_run url (takeWhile py_isdigit t)"
proof -
  let ?i = "takeWhile py_isdigit t" and ?post = "dropWhile py_isdigit t"
  have "url = pre @ ?i @ ?post" using assms(1) by simp
  moreover have "list_all py_isdigit ?i" by (auto simp: list_all_iff dest: set_takeWhileD)
  moreover have "?post = [] \<or> \<not> py_isdigit (hd ?post)" using hd_dropWhile by blast
  ultimately show ?thesis unfolding maximal_digit_run_def using assms(2-4) by blast
qed


lemma search_path_run:
  assumes "re_search pat_path url = Some m"
  shows "\<exists>i. group1 m = Some i \<and> maximal_digit_run url i \<and> 8 \<le> length i"
proof -
  from re_search_Some [OF assms] obtain pre suf where u: "url = pre @ suf"
    and m: "match_at pat_path suf = Some m" by blast
  from match_at_Some [OF m] obtain rest others
    where "rmatch pat_path suf = (group1 m, rest) # others" by blast
  from pat_path_hd [OF this] obtain u t where suf: "suf = ''jobs/view/'' @ u @ t"
    and last: "u = [] \<or> last u \<in> set ''-/''"
    and g: "group1 m = Some (takeWhile py_isdigit t)"
    and len: "8 \<le> length (takeWhile py_isdigit t)" by blast
  let ?pre = "pre @ ''jobs/view/'' @ u"
  have "\<not> py_isdigit (last ?pre)" using last by (auto simp: py_isdigit_def Let_def)
  moreover have "url = ?pre @ t" using u suf by simp
  moreover have "takeWhile py_isdigit t \<noteq> []" using len by auto
  ultimately have "maximal_digit_run url (takeWhile py_isdigit t)"
    using maximal_digit_runI [of url ?pre t] by simp
  with g len show ?thesis by blast
qed

lemma search_query_run:
  assumes "re_search pat_query url = Some m"
  shows "\<exists>i. group1 m = Some i \<and> maximal_digit_run url i \<and> 1 \<le> length i"
proof -
  from re_search_Some [OF assms] obtain pre suf where u: "url = pre @ suf"
    and m: "match_at pat_query suf = Some m" by blast
  from match_at_Some [OF m] obtain rest others
    where "rmatch pat_query suf = (group1 m, rest) # others" by blast
  from pat_query_hd [OF this] obtain t where suf: "suf = ''currentJobId='' @ t"
    and g: "group1 m = Some (takeWhile py_isdigit t)"
    and len: "1 \<le> length (takeWhile py_isdigit t)" by blast
  let ?pre = "pre @ ''currentJobId=''"
  have "\<not> py_isdigit (last ?pre)" by (simp add: py_isdigit_def Let_def)
  moreover have "url = ?pre @ t" using u suf by simp
  moreover have "takeWhile py_isdigit t \<noteq> []" using len by auto
  ultimately have "maximal_digit_run url (takeWhile py_isdigit t)"
    using maximal_digit_runI [of url ?pre t] by simp
  with g len show ?thesis by blast
qed

lemma search_trailing_run:
  assumes "re_search pat_trailing url = Some m"
  shows "\<exists>i. group1 m = Some i \<and> maximal_digit_run url i \<and> 8 \<le> length i"
proof -
  from re_search_Some [OF assms] obtain pre suf where u: "url = pre @ suf"
    and m: "match_at pat_trailing suf = Some m" by blast
  from match_at_Some [OF m] obtain rest others
    where "rmatch pat_trailing suf = (group1 m, rest) # others" by blast
  then have "(group1 m, rest) \<in> set (rmatch pat_trailing suf)" by simp
  from pat_trailing_set [OF this] obtain t where suf: "suf = ''/'' @ t"
    and g: "group1 m = Some (takeWhile py_isdigit t)"
    and len: "8 \<le> length (takeWhile py_isdigit t)" by blast
  let ?pre = "pre @ ''/''"
  have "\<not> py_isdigit (last ?pre)" by (simp add: py_isdigit_def Let_def)
  moreover have "url = ?pre @ t" using u suf by simp
  moreover have "takeWhile py_isdigit t \<noteq> []" using len by auto
  ultimately have "maximal_digit_run url (takeWhile py_isdigit t)"
    using maximal_digit_runI [of url ?pre t] by simp
  with g len show ?thesis by blast
qed

text \<open>
  C8, as stated, asks for at least 8 digits whichever pattern matched. The query-parameter
  pattern is \<open>currentJobId=(\d+)\<close>, so it returns a shorter identifier.
\<close>

theorem job_id_short_counterexample:
  "extract_linkedin_job_id ''https://www.linkedin.com/jobs/search/?currentJobId=123'' = Some ''123''
   \<and> \<not> 8 \<le> length ''123''"
  by code_simp

text \<open>
  C8 (amended). When the extraction succeeds, the identifier is a maximal run of decimal
  digits of the URL: it is the group captured by the first pattern that matches, in the order
  path segment, query parameter, trailing segment, and it has at least 8 digits for the
  path-segment and the trailing-segment pattern, at least 1 for the query-parameter pattern.
\<close>

theorem job_id_maximal_run:
  assumes "extract_linkedin_job_id url = Some i"
  shows "maximal_digit_run url i \<and>
    (case re_search pat_path url of
       Some m \<Rightarrow> group1 m = Some i \<and> 8 \<le> length i
     | None \<Rightarrow>
        (case re_search pat_query url of
           Some m \<Rightarrow> group1 m = Some i \<and> 1 \<le> length i
         | None \<Rightarrow>
            (case re_search pat_trailing url of
               Some m \<Rightarrow> group1 m = Some i \<and> 8 \<le> length i
             | None \<Rightarrow> False)))"
  using assms search_path_run [of url] search_query_run [of url] search_trailing_run [of url]
  unfolding extract_linkedin_job_id_def
  by (auto split: option.splits)

theorem job_id_maximal_run_witness:
  "extract_linkedin_job_id ''https://www.linkedin.com/jobs/view/senior-engineer-12345678'' = Some ''12345678''
   \<and> maximal_digit_run ''https://www.linkedin.com/jobs/view/senior-engineer-12345678'' ''12345678''"
proof -
  have h: "extract_linkedin_job_id ''https://www.linkedin.com/jobs/view/senior-engineer-12345678''
             = Some ''12345678''"
    by code_simp
  from job_id_maximal_run [OF h] h show ?thesis by blast
qed

section \<open>The tolerant parser: properties\<close>

lemma lstrip_ws:
  assumes "list_all py_isspace w" and "x \<noteq> []" and "\<not> py_isspace (hd x)"
  shows "lstrip (w @ x @ y) = x @ y"
proof -
  have "dropWhile py_isspace (w @ x @ y) = dropWhile py_isspace (x @ y)"
    using assms(1) by (simp add: list_all_iff)
  also have "\<dots> = x @ y" using assms(2,3) by (cases x) auto
  finally show ?thesis by (simp add: lstrip_def)
qed

lemma rstrip_ws:
  assumes "list_all py_isspace w" and "x \<noteq> []" and "\<not> py_isspace (last x)"
  shows "rstrip (x @ w) = x"
proof -
  have "dropWhile py_isspace (rev w @ rev x) = dropWhile py_isspace (rev x)"
    using assms(1) by (intro dropWhile_append2) (simp add: list_all_iff)
  also have "\<dots> = rev x" using assms(2,3) by (cases "rev x") (auto simp: last_rev [symmetric] simp del: last_rev)
  finally show ?thesis by (simp add: rstrip_def)
qed

lemma strip_ws:
  assumes "list_all py_isspace w1" and "list_all py_isspace w2"
    and "x \<noteq> []" and "\<not> py_isspace (hd x)" and "\<not> py_isspace (last x)"
  shows "strip (w1 @ x @ w2) = x"
  using lstrip_ws [OF assms(1,3,4), of w2] rstrip_ws [OF assms(2,3,5)] by (simp add: strip_def)

lemma search_lit_absent:
  "\<not> contains s l \<Longrightarrow> re_search (Seq (Lit l) r) s = None"
  by (induction s) (auto simp: match_at_def startswith_def)

lemma search_at_start:
  "match_at r s = Some m \<Longrightarrow> re_search r s = Some m"
  by (cases s) auto


lemma rmatch_seq_first:
  assumes "rmatch a s = xs @ (c1, s1) # ys" and "\<forall>p \<in> set xs. rmatch b (snd p) = []"
    and "rmatch b s1 = (c2, s2) # bs"
  shows "\<exists>zs. rmatch (Seq a b) s = (later c1 c2, s2) # zs"
proof -
  let ?f = "\<lambda>(c1, s1). map (\<lambda>(c2, s2). (later c1 c2, s2)) (rmatch b s1)"
  have e: "concat (map ?f xs) = []" using assms(2) by (auto simp: case_prod_beta)
  have "rmatch (Seq a b) s = concat (map ?f xs) @ ?f (c1, s1) @ concat (map ?f ys)"
    using assms(1) by simp
  also have "\<dots> = ?f (c1, s1) @ concat (map ?f ys)" unfolding e by simp
  also have "?f (c1, s1) = (later c1 c2, s2) # map (\<lambda>(c2, s2). (later c1 c2, s2)) bs"
    using assms(3) by simp
  finally show ?thesis by simp
qed

lemma rmatch_seq_first0:
  assumes "rmatch a s = (c1, s1) # ys" and "rmatch b s1 = (c2, s2) # bs"
  shows "\<exists>zs. rmatch (Seq a b) s = (later c1 c2, s2) # zs"
  using rmatch_seq_first [of a s "[]" c1 s1 ys b c2 s2 bs] assms by simp

lemma ws_no_fence:
  assumes "list_all py_isspace w" and "j < length w"
  shows "\<not> startswith (drop j (w @ rest)) ''```''"
proof -
  have "py_isspace (w ! j)" using assms by (simp add: list_all_length)
  then have "w ! j \<noteq> CHR 0x60" by (auto simp: py_isspace_def Let_def)
  moreover have "drop j (w @ rest) = w ! j # drop (Suc j) w @ rest"
    using assms(2) by (simp add: Cons_nth_drop_Suc)
  ultimately show ?thesis by (auto simp: startswith_def)
qed

lemma body_no_fence:
  assumes "\<not> contains t ''```''" and "t \<noteq> []" and "last t \<noteq> CHR 0x60" and "j < length t"
  shows "\<not> startswith (drop j (t @ rest)) ''```''"
  using assms
proof (induction t arbitrary: j)
  case Nil
  then show ?case by simp
next
  case (Cons c cs)
  show ?case
  proof (cases j)
    case 0
    show ?thesis
    proof
      assume sw: "startswith (drop j ((c # cs) @ rest)) ''```''"
      show False
      proof (cases "3 \<le> length (c # cs)")
        case True
        with sw 0 have "startswith (c # cs) ''```''" by (simp add: startswith_def)
        with Cons.prems(1) show False by simp
      next
        case False
        then have "cs = [] \<or> (\<exists>d. cs = [d])" by (cases cs; cases "tl cs") auto
        with sw 0 Cons.prems(3) show False by (auto simp: startswith_def)
      qed
    qed
  next
    case (Suc j')
    with Cons.prems have cs: "cs \<noteq> []" "j' < length cs" by auto
    with Cons.prems have "\<not> contains cs ''```''" "last cs \<noteq> CHR 0x60" by auto
    from Cons.IH [OF this(1) cs(1) this(2) cs(2)] Suc show ?thesis by simp
  qed
qed

lemma fenced_no_fence:
  assumes "\<not> contains t ''```''" and "t \<noteq> []" and "last t \<noteq> CHR 0x60"
    and "list_all py_isspace w" and "j < length (t @ w)"
  shows "\<not> startswith (drop j ((t @ w) @ ''```'' @ rest)) ''```''"
proof (cases "j < length t")
  case True
  from body_no_fence [OF assms(1-3) True, of "w @ ''```'' @ rest"] show ?thesis by simp
next
  case False
  then have j: "j - length t < length w" using assms(5) by auto
  from False have "drop j ((t @ w) @ ''```'' @ rest) = drop (j - length t) (w @ ''```'' @ rest)"
    by simp
  with ws_no_fence [OF assms(4) j, of "''```'' @ rest"] show ?thesis by simp
qed

lemma lazy_group_first:
  assumes "\<forall>j < length a. \<not> startswith (drop j (a @ f @ b)) f"
  shows "\<exists>zs. rmatch (Seq (Group (Rep CAny 0 False)) (Lit f)) (a @ f @ b) = (Some a, b) # zs"
proof -
  let ?u = "a @ f @ b"
  let ?h = "\<lambda>k. (Some (take k ?u), drop k ?u)"
  have tw: "takeWhile (in_class CAny) ?u = ?u" by simp
  have "[0..<Suc (length ?u)] = [0..<length a] @ [length a..<Suc (length ?u)]"
    using upt_add_eq_append [of 0 "length a" "Suc (length ?u) - length a"] by simp
  moreover have "[length a..<Suc (length ?u)] = length a # [Suc (length a)..<Suc (length ?u)]"
    by (rule upt_conv_Cons) simp
  ultimately have "[0..<Suc (length ?u)]
      = [0..<length a] @ length a # [Suc (length a)..<Suc (length ?u)]" by simp
  then have "rmatch (Group (Rep CAny 0 False)) ?u
      = map ?h [0..<length a] @ (Some a, f @ b) # map ?h [Suc (length a)..<Suc (length ?u)]"
    unfolding rmatch_group_rep tw by (simp add: rep_counts_def)
  moreover have "\<forall>p \<in> set (map ?h [0..<length a]). rmatch (Lit f) (snd p) = []"
    using assms by auto
  moreover have "rmatch (Lit f) (f @ b) = (None, b) # []" by (simp add: startswith_def)
  ultimately obtain zs where
    "rmatch (Seq (Group (Rep CAny 0 False)) (Lit f)) ?u = (later (Some a) None, b) # zs"
    using rmatch_seq_first by blast
  then show ?thesis by (simp add: later_def)
qed


lemma greedy_space_first:
  assumes "list_all py_isspace w" and "u \<noteq> []" and "\<not> py_isspace (hd u)"
  shows "\<exists>zs. rmatch (Rep CSpace 0 True) (w @ u) = (None, u) # zs"
proof -
  have "takeWhile py_isspace u = []" using assms(2,3) by (cases u) auto
  moreover have "takeWhile py_isspace (w @ u) = w @ takeWhile py_isspace u"
    using assms(1) by (intro takeWhile_append2) (simp add: list_all_iff)
  ultimately have "takeWhile (in_class CSpace) (w @ u) = w"
    by (simp add: in_class.simps(2) [abs_def])
  then show ?thesis by (simp add: rep_counts_def)
qed

lemma fence_match:
  assumes "t \<noteq> []" and "hd t = CHR ''{''" and "last t = CHR ''}''"
    and "\<not> contains t ''```''"
    and "list_all py_isspace w3" and "list_all py_isspace w4"
    and "lang = [] \<or> lang = ''json''"
  shows "\<exists>m. match_at pat_fence (''```'' @ lang @ w3 @ t @ w4 @ ''```'' @ rest) = Some m
           \<and> group1 m = Some (t @ w4)"
proof -
  let ?u = "(t @ w4) @ ''```'' @ rest"
  let ?R4 = "Seq (Group (Rep CAny 0 False)) (Lit ''```'')"
  let ?R3 = "Seq (Opt (Lit [CHR 0x0A])) ?R4"
  let ?R2 = "Seq (Rep CSpace 0 True) ?R3"
  let ?R1 = "Seq (Opt (Lit ''json'')) ?R2"
  have hd_u: "?u \<noteq> []" "hd ?u = CHR ''{''" using assms(1,2) by auto
  have "last t \<noteq> CHR 0x60" using assms(3) by simp
  then have "\<forall>j < length (t @ w4). \<not> startswith (drop j ?u) ''```''"
    using fenced_no_fence [OF assms(4,1) _ assms(6)] by blast
  from lazy_group_first [OF this] obtain z4
    where r4: "rmatch ?R4 ?u = (Some (t @ w4), rest) # z4" by blast
  have "rmatch (Opt (Lit [CHR 0x0A])) ?u = (None, ?u) # []"
    using hd_u by (cases ?u) (auto simp: startswith_def)
  from rmatch_seq_first0 [OF this r4] obtain z3
    where r3: "rmatch ?R3 ?u = (Some (t @ w4), rest) # z3" by (auto simp: later_def)
  have "\<not> py_isspace (hd ?u)" unfolding hd_u(2) by (simp add: py_isspace_def Let_def)
  from greedy_space_first [OF assms(5) hd_u(1) this] obtain zs
    where "rmatch (Rep CSpace 0 True) (w3 @ ?u) = (None, ?u) # zs" by blast
  from rmatch_seq_first0 [OF this r3] obtain z2
    where r2: "rmatch ?R2 (w3 @ ?u) = (Some (t @ w4), rest) # z2" by (auto simp: later_def)
  have "\<not> startswith (w3 @ ?u) ''json''"
  proof (cases w3)
    case Nil
    then show ?thesis using hd_u by (cases ?u) (auto simp: startswith_def)
  next
    case (Cons c cs)
    with assms(5) have "py_isspace c" by simp
    then have "c \<noteq> CHR ''j''" by (auto simp: py_isspace_def Let_def)
    with Cons show ?thesis by (simp add: startswith_def)
  qed
  then have "\<exists>zs. rmatch (Opt (Lit ''json'')) (lang @ w3 @ ?u) = (None, w3 @ ?u) # zs"
    using assms(7) by (auto simp: startswith_def)
  then obtain zo where "rmatch (Opt (Lit ''json'')) (lang @ w3 @ ?u) = (None, w3 @ ?u) # zo"
    by blast
  from rmatch_seq_first0 [OF this r2] obtain z1
    where r1: "rmatch ?R1 (lang @ w3 @ ?u) = (Some (t @ w4), rest) # z1"
    by (auto simp: later_def)
  have "rmatch (Lit ''```'') (''```'' @ lang @ w3 @ ?u) = (None, lang @ w3 @ ?u) # []"
    by (simp add: startswith_def)
  from rmatch_seq_first0 [OF this r1] obtain z0
    where "rmatch pat_fence (''```'' @ lang @ w3 @ ?u) = (Some (t @ w4), rest) # z0"
    unfolding pat_fence_def by (auto simp: later_def)
  then show ?thesis by (simp add: match_at_def)
qed


lemma candidate_plain:
  assumes "t \<noteq> []" and "hd t = CHR ''{''" and "last t = CHR ''}''"
    and "\<not> contains t ''```''"
    and "list_all py_isspace w1" and "list_all py_isspace w2"
  shows "candidate (w1 @ t @ w2) = Inr t"
proof -
  have "\<not> py_isspace (hd t)" "\<not> py_isspace (last t)"
    using assms(2,3) by (simp_all add: py_isspace_def Let_def)
  from strip_ws [OF assms(5,6,1) this] have "strip (w1 @ t @ w2) = t" .
  moreover have "re_search pat_fence t = None"
    unfolding pat_fence_def using assms(4) by (rule search_lit_absent)
  ultimately show ?thesis by (simp add: candidate_def)
qed

lemma candidate_fenced:
  assumes "t \<noteq> []" and "hd t = CHR ''{''" and "last t = CHR ''}''"
    and "\<not> contains t ''```''"
    and "list_all py_isspace w1" and "list_all py_isspace w2"
    and "list_all py_isspace w3" and "list_all py_isspace w4"
    and "lang = [] \<or> lang = ''json''"
  shows "candidate (w1 @ (''```'' @ lang @ w3 @ t @ w4 @ ''```'') @ w2) = Inr t"
proof -
  let ?F = "''```'' @ lang @ w3 @ t @ w4 @ ''```''"
  have "?F \<noteq> []" "\<not> py_isspace (hd ?F)" "\<not> py_isspace (last ?F)"
    by (simp_all add: py_isspace_def Let_def)
  from strip_ws [OF assms(5,6) this] have st: "strip (w1 @ ?F @ w2) = ?F" .
  from fence_match [OF assms(1-4) assms(7-9), of "[]"] obtain m
    where "match_at pat_fence ?F = Some m" and g: "group1 m = Some (t @ w4)" by auto
  from search_at_start [OF this(1)] have se: "re_search pat_fence ?F = Some m" .
  have "\<not> py_isspace (hd t)" "\<not> py_isspace (last t)"
    using assms(2,3) by (simp_all add: py_isspace_def Let_def)
  from strip_ws [OF _ assms(8,1) this, of "[]"] have "strip (t @ w4) = t" by simp
  with st se g show ?thesis by (simp add: candidate_def)
qed

text \<open>
  C2. The function returns whatever \<open>json.loads\<close> returns: for a text that is a JSON list
  the result is that list, not a mapping.
\<close>

theorem parse_json_response_list:
  "parse_json_response ''[1, 2]'' = Inr (JArr [JInt 1, JInt 2])"
  by code_simp

text \<open>
  C3, as stated, covers every valid JSON object. The fence pattern is searched before any
  parse, so an object with a fenced region inside one of its strings is cut down to that
  region, and the result is the empty mapping.
\<close>

theorem fence_in_string_counterexample:
  "json_loads ''{\"a\": \"```x```\"}'' = Inr (JObj [(''a'', JStr ''```x```'')])
   \<and> parse_json_response ''{\"a\": \"```x```\"}'' = Inr (JObj [])"
  by code_simp

text \<open>
  C3 (amended). Let \<open>t\<close> be the text of a JSON object, from its opening to its closing brace,
  that contains no \<open>```\<close>. Then \<open>parse_json_response\<close> returns the strict parse of \<open>t\<close>, both
  for \<open>t\<close> in surrounding white space and for \<open>t\<close> in a fenced block (\<open>```\<close> or \<open>```json\<close>)
  with white space around the block and around \<open>t\<close> inside it.
\<close>

theorem parse_valid_object:
  assumes "json_loads t = Inr (JObj kvs)"
    and "t \<noteq> []" and "hd t = CHR ''{''" and "last t = CHR ''}''"
    and "\<not> contains t ''```''"
    and "list_all py_isspace w1" and "list_all py_isspace w2"
    and "list_all py_isspace w3" and "list_all py_isspace w4"
    and "lang = [] \<or> lang = ''json''"
  shows "parse_json_response (w1 @ t @ w2) = Inr (JObj kvs)
       \<and> parse_json_response (w1 @ (''```'' @ lang @ w3 @ t @ w4 @ ''```'') @ w2) = Inr (JObj kvs)"
  using candidate_plain [OF assms(2-7)] candidate_fenced [OF assms(2-10)] assms(1)
  by (simp add: parse_json_response_def)

theorem parse_valid_object_witness:
  "parse_json_response ('' '' @ ''{\"a\": 1}'' @ [CHR 0x0A]) = Inr (JObj [(''a'', JInt 1)])
   \<and> parse_json_response ('' '' @ (''```'' @ ''json'' @ [CHR 0x0A] @ ''{\"a\": 1}'' @ [CHR 0x0A] @ ''```'') @ [CHR 0x0A])
       = Inr (JObj [(''a'', JInt 1)])"
proof -
  have 1: "json_loads ''{\"a\": 1}'' = Inr (JObj [(''a'', JInt 1)])" by code_simp
  have 2: "\<not> contains ''{\"a\": 1}'' ''```''" by code_simp
  have 3: "list_all py_isspace '' ''" "list_all py_isspace [CHR 0x0A]" by code_simp+
  show ?thesis
    using parse_valid_object [OF 1 _ _ _ 2 3(1) 3(2) 3(2) 3(2), of "''json''"] by simp
qed

lemma braces_tail_none:
  assumes "CHR ''}'' \<notin> set r"
  shows "rmatch (Seq (Rep CAny 0 True) (Lit ''}'')) r = []"
proof -
  have "\<not> startswith (drop k r) ''}''" for k
  proof
    assume "startswith (drop k r) ''}''"
    then have "hd (drop k r) = CHR ''}''" "drop k r \<noteq> []"
      by (cases "drop k r"; simp add: startswith_def)+
    then have "CHR ''}'' \<in> set (drop k r)" using hd_in_set by metis
    with assms show False using in_set_dropD by metis
  qed
  then show ?thesis by simp
qed

lemma braces_tail_last:
  assumes "CHR ''}'' \<notin> set b"
  shows "\<exists>zs. rmatch (Seq (Rep CAny 0 True) (Lit ''}'')) (a @ CHR ''}'' # b) = (None, b) # zs"
proof -
  let ?r = "a @ CHR ''}'' # b"
  let ?h = "\<lambda>k. (None :: string option, drop k ?r)"
  let ?n = "length ?r"
  have tw: "takeWhile (in_class CAny) ?r = ?r" by simp
  have "[0..<Suc ?n] = [0..<length a] @ [length a..<Suc ?n]"
    using upt_add_eq_append [of 0 "length a" "Suc ?n - length a"] by simp
  moreover have "[length a..<Suc ?n] = length a # [Suc (length a)..<Suc ?n]"
    by (rule upt_conv_Cons) simp
  ultimately have "rev [0..<Suc ?n] = rev [Suc (length a)..<Suc ?n] @ length a # rev [0..<length a]"
    by simp
  then have "rmatch (Rep CAny 0 True) ?r
      = map ?h (rev [Suc (length a)..<Suc ?n]) @ (None, CHR ''}'' # b) # map ?h (rev [0..<length a])"
    unfolding rmatch.simps tw by (simp add: rep_counts_def)
  moreover have "\<forall>p \<in> set (map ?h (rev [Suc (length a)..<Suc ?n])). rmatch (Lit ''}'') (snd p) = []"
  proof -
    have ns: "\<not> startswith (drop k ?r) ''}''" if "Suc (length a) \<le> k" for k
    proof
      assume sw: "startswith (drop k ?r) ''}''"
      from that obtain d where d: "k = Suc (length a) + d" using le_Suc_ex by blast
      then have "drop k ?r = drop (k - Suc (length a)) b" by simp
      with sw have "hd (drop (k - Suc (length a)) b) = CHR ''}''" "drop (k - Suc (length a)) b \<noteq> []"
        by (cases "drop (k - Suc (length a)) b"; simp add: startswith_def)+
      then have "CHR ''}'' \<in> set (drop (k - Suc (length a)) b)" using hd_in_set by metis
      with assms show False using in_set_dropD by metis
    qed
    show ?thesis
    proof
      fix p assume "p \<in> set (map ?h (rev [Suc (length a)..<Suc ?n]))"
      then obtain k where "k \<in> set (rev [Suc (length a)..<Suc ?n])" and p: "p = ?h k"
        unfolding set_map by (rule imageE)
      then have k: "Suc (length a) \<le> k" by (simp only: set_rev set_upt atLeastLessThan_iff)
      from ns [OF k] have "rmatch (Lit ''}'') (drop k ?r) = []"
        by (simp only: rmatch.simps if_False)
      then show "rmatch (Lit ''}'') (snd p) = []" unfolding p by (simp only: snd_conv)
    qed
  qed
  moreover have "rmatch (Lit ''}'') (CHR ''}'' # b) = (None, b) # []" by (simp add: startswith_def)
  ultimately obtain zs where
    "rmatch (Seq (Rep CAny 0 True) (Lit ''}'')) ?r = (later None None, b) # zs"
    using rmatch_seq_first by blast
  then show ?thesis by (simp add: later_def)
qed


lemma match_braces_open:
  "match_at pat_braces (CHR ''{'' # r) =
     (if CHR ''}'' \<in> set r
      then Some \<lparr>group0 = CHR ''{'' # rev (dropWhile (\<lambda>c. c \<noteq> CHR ''}'') (rev r)), group1 = None\<rparr>
      else None)"
proof (cases "CHR ''}'' \<in> set r")
  case True
  then obtain a b where r: "r = a @ CHR ''}'' # b" and b: "CHR ''}'' \<notin> set b"
    using split_list_last [of "CHR ''}''" r] by blast
  from braces_tail_last [OF b, of a] obtain zs
    where "rmatch (Seq (Rep CAny 0 True) (Lit ''}'')) r = (None, b) # zs" unfolding r by blast
  moreover have "rmatch (Lit ''{'') (CHR ''{'' # r) = (None, r) # []"
    by (simp add: startswith_def)
  ultimately obtain ys where "rmatch pat_braces (CHR ''{'' # r) = (later None None, b) # ys"
    unfolding pat_braces_def using rmatch_seq_first0 by blast
  then have "match_at pat_braces (CHR ''{'' # r)
      = Some \<lparr>group0 = take (length (CHR ''{'' # r) - length b) (CHR ''{'' # r), group1 = None\<rparr>"
    by (simp add: match_at_def later_def)
  moreover have "take (length (CHR ''{'' # r) - length b) (CHR ''{'' # r) = CHR ''{'' # a @ ''}''"
    unfolding r by simp
  moreover have "rev (dropWhile (\<lambda>c. c \<noteq> CHR ''}'') (rev r)) = a @ ''}''"
  proof -
    have "dropWhile (\<lambda>c. c \<noteq> CHR ''}'') (rev b @ CHR ''}'' # rev a) = CHR ''}'' # rev a"
      using b by (subst dropWhile_append2) auto
    then show ?thesis unfolding r by simp
  qed
  ultimately show ?thesis using True by simp
next
  case False
  from braces_tail_none [OF False] have "rmatch pat_braces (CHR ''{'' # r) = []"
    unfolding pat_braces_def by simp
  with False show ?thesis by (simp add: match_at_def)
qed

lemma match_braces_other:
  "c \<noteq> CHR ''{'' \<Longrightarrow> match_at pat_braces (c # cs) = None"
  by (simp add: match_at_def pat_braces_def startswith_def)

lemma search_braces:
  "re_search pat_braces s = map_option (\<lambda>g. \<lparr>group0 = g, group1 = None\<rparr>) (brace_region s)"
proof (induction s)
  case Nil
  show ?case by (simp add: match_at_def pat_braces_def startswith_def brace_region_def)
next
  case (Cons c cs)
  show ?case
  proof (cases "c = CHR ''{''")
    case False
    then have "brace_region (c # cs) = brace_region cs" by (simp add: brace_region_def)
    with False Cons.IH show ?thesis by (simp add: match_braces_other)
  next
    case True
    show ?thesis
    proof (cases "CHR ''}'' \<in> set cs")
      case in_cs: True
      then have "dropWhile (\<lambda>c. c \<noteq> CHR ''}'') (rev cs @ ''{'')
          = dropWhile (\<lambda>c. c \<noteq> CHR ''}'') (rev cs) @ ''{''"
        by (intro dropWhile_append1 [of "CHR ''}''"]) auto
      then have "brace_region (c # cs) = Some (CHR ''{'' # rev (dropWhile (\<lambda>c. c \<noteq> CHR ''}'') (rev cs)))"
        using True in_cs by (simp add: brace_region_def)
      with True in_cs show ?thesis by (simp add: match_braces_open)
    next
      case not_in: False
      then have "CHR ''}'' \<notin> set (dropWhile (\<lambda>c. c \<noteq> CHR ''{'') cs)"
        using set_dropWhileD by metis
      then have "brace_region cs = None" by (simp add: brace_region_def)
      moreover have "brace_region (c # cs) = None" using True not_in by (simp add: brace_region_def)
      ultimately show ?thesis using True not_in Cons.IH by (simp add: match_braces_open)
    qed
  qed
qed

text \<open>
  C4, as stated, has the fallback search the original input. The code has replaced \<open>text\<close>
  by the contents of the fence by then: a parseable region outside the fence is not found.
\<close>

theorem region_outside_fence_counterexample:
  "candidate ''{\"a\": 1} ```hello```'' = Inr ''hello''
   \<and> json_loads ''hello'' = Inl JSONDecodeError
   \<and> brace_region ''{\"a\": 1} ```hello```'' = Some ''{\"a\": 1}''
   \<and> json_loads ''{\"a\": 1}'' = Inr (JObj [(''a'', JInt 1)])
   \<and> parse_json_response ''{\"a\": 1} ```hello```'' = Inr (JObj [])"
  by code_simp

text \<open>
  C4 (amended). When the strict parse of the candidate fails, \<open>parse_json_response\<close>
  searches the candidate (the stripped contents of the first fenced block, or the stripped
  input when there is no fence) for the region from its first \<open>{\<close> to its last \<open>}\<close>, and
  returns the strict parse of that region when it succeeds, the empty mapping when there
  is no region or its parse fails.
\<close>

theorem fallback_searches_candidate:
  assumes "candidate text = Inr cand" and "json_loads cand = Inl JSONDecodeError"
  shows "parse_json_response text =
     (case brace_region cand of
        None \<Rightarrow> Inr (JObj [])
      | Some region \<Rightarrow>
         (case json_loads region of
            Inr v \<Rightarrow> Inr v
          | Inl e \<Rightarrow> if e = JSONDecodeError then Inr (JObj []) else Inl e))"
  using assms by (simp add: parse_json_response_def search_braces split: option.splits)

theorem fallback_searches_candidate_witness:
  "parse_json_response ''```Here it is: {\"a\": 1} enjoy```'' = Inr (JObj [(''a'', JInt 1)])"
proof -
  have 1: "candidate ''```Here it is: {\"a\": 1} enjoy```'' = Inr ''Here it is: {\"a\": 1} enjoy''"
    by code_simp
  have 2: "json_loads ''Here it is: {\"a\": 1} enjoy'' = Inl JSONDecodeError" by code_simp
  have 3: "brace_region ''Here it is: {\"a\": 1} enjoy'' = Some ''{\"a\": 1}''" by code_simp
  have 4: "json_loads ''{\"a\": 1}'' = Inr (JObj [(''a'', JInt 1)])" by code_simp
  from fallback_searches_candidate [OF 1 2] 3 4 show ?thesis by simp
qed

section \<open>Rendering: properties\<close>

lemma str_replace_absent:
  "\<not> contains s old \<Longrightarrow> old \<noteq> [] \<Longrightarrow> str_replace old new s = s"
  by (induction s) auto
























lemma contains_pair_append:
  "contains (a @ b) [x, x] \<Longrightarrow>
     contains a [x, x] \<or> contains b [x, x] \<or> (a \<noteq> [] \<and> b \<noteq> [] \<and> last a = x \<and> hd b = x)"
proof (induction a)
  case Nil
  then show ?case by simp
next
  case (Cons c cs)
  from Cons.prems have "startswith ((c # cs) @ b) [x, x] \<or> contains (cs @ b) [x, x]" by simp
  then show ?case
  proof
    assume sw: "startswith ((c # cs) @ b) [x, x]"
    show ?thesis
    proof (cases cs)
      case Nil
      with sw show ?thesis by (cases b) (auto simp: startswith_def)
    next
      case (Cons d ds)
      with sw have "startswith (c # cs) [x, x]" by (simp add: startswith_def)
      then show ?thesis by simp
    qed
  next
    assume "contains (cs @ b) [x, x]"
    from Cons.IH [OF this] show ?thesis by auto
  qed
qed

lemma marker_free_append:
  assumes "marker_free a" and "marker_free b"
    and "a = [] \<or> \<not> is_bracket (last a) \<or> b = [] \<or> \<not> is_bracket (hd b)"
  shows "marker_free (a @ b)"
  using assms contains_pair_append [of a b "CHR ''[''"] contains_pair_append [of a b "CHR '']''"]
  unfolding marker_free_def is_bracket_def by auto

lemma sealed_append: "sealed a \<Longrightarrow> sealed b \<Longrightarrow> sealed (a @ b)"
  using marker_free_append [of a b] by (simp add: sealed_def)

lemma sealed_opt:
  "sealed a \<Longrightarrow> m = [] \<or> sealed m \<Longrightarrow> sealed b \<Longrightarrow> sealed (a @ m @ b)"
  using sealed_append by auto

lemma sealed_wrap:
  assumes "sealed a" and "marker_free f" and "sealed b"
  shows "sealed (a @ f @ b)"
proof -
  have "marker_free (f @ b)" using assms(2,3) marker_free_append [of f b] by (simp add: sealed_def)
  then have "marker_free (a @ f @ b)"
    using assms(1) marker_free_append [of a "f @ b"] by (simp add: sealed_def)
  then show ?thesis using assms(1,3) by (simp add: sealed_def)
qed

lemma sealed_concat:
  "(\<And>x. x \<in> set xs \<Longrightarrow> sealed (f x)) \<Longrightarrow>
     concat (map f xs) = [] \<or> sealed (concat (map f xs))"
proof (induction xs)
  case Nil
  show ?case by simp
next
  case (Cons x xs)
  then have fx: "sealed (f x)" and "concat (map f xs) = [] \<or> sealed (concat (map f xs))"
    by auto
  from this(2) have "sealed (f x @ concat (map f xs))"
  proof
    assume "concat (map f xs) = []"
    with fx show ?thesis by (simp only: append_Nil2)
  next
    assume "sealed (concat (map f xs))"
    with fx show ?thesis by (rule sealed_append)
  qed
  then show ?case by simp
qed

lemma sealed_tag:
  assumes "marker_free t" and "t \<noteq> []" and "hd t = CHR ''<''" and "last t = CHR ''>''"
  shows "sealed t"
  using assms by (simp add: sealed_def is_bracket_def)


lemmas sealed_lit = sealed_def marker_free_def startswith_def is_bracket_def

lemma sealed_bullet_list:
  assumes "list_all marker_free bs"
  shows "sealed (bullet_list bs)"
proof -
  have "sealed (''<li>'' @ b @ ''</li>'')" if "b \<in> set bs" for b
    using that assms by (intro sealed_wrap) (simp_all add: list_all_iff, simp_all add: sealed_lit)
  then have "concat (map (\<lambda>b. ''<li>'' @ b @ ''</li>'') bs) = []
      \<or> sealed (concat (map (\<lambda>b. ''<li>'' @ b @ ''</li>'') bs))"
    by (rule sealed_concat)
  then show ?thesis
    unfolding bullet_list_def by (intro sealed_opt) (simp_all add: sealed_lit)
qed

lemma sealed_subsection_block:
  assumes "subsection_marker_free ss"
  shows "sealed (subsection_block ss)"
proof -
  from assms have t: "marker_free (get_str (sub_title ss))"
    and b: "list_all marker_free (get_list (sub_bullets ss))"
    by (simp_all add: subsection_marker_free_def)
  have "sealed (''<div><h4>'' @ get_str (sub_title ss) @ ''</h4>'')"
    using t by (intro sealed_wrap) (simp_all add: sealed_lit)
  moreover have "sealed (bullet_list (get_list (sub_bullets ss)) @ ''</div>'')"
    using sealed_bullet_list [OF b] by (intro sealed_append) (simp_all add: sealed_lit)
  ultimately have "sealed ((''<div><h4>'' @ get_str (sub_title ss) @ ''</h4>'')
      @ bullet_list (get_list (sub_bullets ss)) @ ''</div>'')"
    by (rule sealed_append)
  then show ?thesis by (simp add: subsection_block_def)
qed

lemma sealed_entry_block:
  assumes "entry_marker_free e"
  shows "sealed (entry_block e)"
proof -
  from assms have f: "marker_free (get_str (left_primary e))"
      "marker_free (get_str (right_primary e))"
      "marker_free (get_str (left_secondary e))" "marker_free (get_str (right_secondary e))"
    and ss: "list_all subsection_marker_free (get_list (subsections e))"
    and bs: "list_all marker_free (get_list (bullets e))"
    by (simp_all add: entry_marker_free_def)
  let ?a1 = "''<div><table><tr><td>'' @ get_str (left_primary e) @ ''</td><td>''"
  let ?a2 = "?a1 @ get_str (right_primary e) @ ''</td></tr><tr><td>''"
  let ?a3 = "?a2 @ get_str (left_secondary e) @ ''</td><td>''"
  let ?a4 = "?a3 @ get_str (right_secondary e) @ ''</td></tr></table>''"
  have 1: "sealed ?a1" using f(1) by (intro sealed_wrap) (simp_all add: sealed_lit)
  have 2: "sealed ?a2" using 1 f(2) by (rule sealed_wrap) (simp add: sealed_lit)
  have 3: "sealed ?a3" using 2 f(3) by (rule sealed_wrap) (simp add: sealed_lit)
  have 4: "sealed ?a4" using 3 f(4) by (rule sealed_wrap) (simp add: sealed_lit)
  have "sealed (subsection_block x)" if "x \<in> set (get_list (subsections e))" for x
    using that ss by (intro sealed_subsection_block) (simp add: list_all_iff)
  then have 5: "concat (map subsection_block (get_list (subsections e))) = []
      \<or> sealed (concat (map subsection_block (get_list (subsections e))))"
    by (rule sealed_concat)
  have 6: "sealed (bullet_list (get_list (bullets e)) @ ''</div>'')"
    using sealed_bullet_list [OF bs] by (intro sealed_append) (simp_all add: sealed_lit)
  have "sealed (?a4 @ concat (map subsection_block (get_list (subsections e)))
      @ (bullet_list (get_list (bullets e)) @ ''</div>''))"
    using 4 5 6 by (rule sealed_opt)
  then show ?thesis by (simp add: entry_block_def)
qed

lemma sealed_section_block:
  assumes "section_marker_free s"
  shows "sealed (section_block s)"
proof -
  from assms have t: "marker_free (get_str (title s))"
    and c: "marker_free (get_str (content s))"
    and es: "list_all entry_marker_free (get_list (entries s))"
    and ls: "list_all marker_free (get_list (lines s))"
    by (simp_all add: section_marker_free_def)
  have "sealed (entry_block x)" if "x \<in> set (get_list (entries s))" for x
    using that es by (intro sealed_entry_block) (simp add: list_all_iff)
  then have e: "concat (map entry_block (get_list (entries s))) = []
      \<or> sealed (concat (map entry_block (get_list (entries s))))"
    by (rule sealed_concat)
  have "sealed (''<p>'' @ l @ ''</p>'')" if "l \<in> set (get_list (lines s))" for l
    using that ls by (intro sealed_wrap) (simp_all add: list_all_iff, simp_all add: sealed_lit)
  then have l: "concat (map (\<lambda>l. ''<p>'' @ l @ ''</p>'') (get_list (lines s))) = []
      \<or> sealed (concat (map (\<lambda>l. ''<p>'' @ l @ ''</p>'') (get_list (lines s))))"
    by (rule sealed_concat)
  have p: "sealed (''<p>'' @ get_str (content s) @ ''</p>'')"
    using c by (intro sealed_wrap) (simp_all add: sealed_lit)
  have body: "section_body s = [] \<or> sealed (section_body s)"
    unfolding section_body_def using e l p by auto
  have h: "sealed (''<section><h2>'' @ get_str (title s) @ ''</h2>'')"
    using t by (intro sealed_wrap) (simp_all add: sealed_lit)
  have "sealed ''</section>''" by (simp add: sealed_lit)
  with h body have "sealed ((''<section><h2>'' @ get_str (title s) @ ''</h2>'')
      @ section_body s @ ''</section>'')" by (rule sealed_opt)
  then show ?thesis by (simp add: section_block_def)
qed

lemma sealed_resume_template:
  assumes "marker_free nm" and "marker_free contact" and "list_all section_marker_free secs"
  shows "sealed (resume_template nm contact secs)"
proof -
  have 1: "sealed (''<html><body><h1>'' @ nm @ ''</h1><p>'')"
    using assms(1) by (intro sealed_wrap) (simp_all add: sealed_lit)
  have 2: "sealed ((''<html><body><h1>'' @ nm @ ''</h1><p>'') @ contact @ ''</p>'')"
    using 1 assms(2) by (rule sealed_wrap) (simp add: sealed_lit)
  have "sealed (section_block x)" if "x \<in> set secs" for x
    using that assms(3) by (intro sealed_section_block) (simp add: list_all_iff)
  then have 3: "concat (map section_block secs) = [] \<or> sealed (concat (map section_block secs))"
    by (rule sealed_concat)
  have "sealed page_foot" by (simp add: page_foot_def sealed_lit)
  with 2 3 have "sealed (((''<html><body><h1>'' @ nm @ ''</h1><p>'') @ contact @ ''</p>'')
      @ concat (map section_block secs) @ page_foot)" by (rule sealed_opt)
  then show ?thesis by (simp add: resume_template_def page_head_def)
qed

lemma mark_marker_free: "marker_free html \<Longrightarrow> mark h html = html"
  by (simp add: mark_def marker_free_def str_replace_absent)

text \<open>
  C9, as stated, asks only that \<open>content\<close>, \<open>bullets\<close>, \<open>lines\<close>, \<open>name\<close> and \<open>contact_line\<close>
  hold no delimiter. A section title is rendered too, and the transform runs on the whole
  body: a title with markers gives two different outputs.
\<close>

theorem title_marker_counterexample:
  "named_fields_marker_free
     \<lparr>name = Some ''Ann'', contact_line = Some ''Oslo'',
      sections = Some [\<lparr>title = Some ''[[Skills]]'', kind = Some ''list'',
                        content = None, entries = None, lines = Some [''Python'']\<rparr>],
      other_keys = []\<rparr>
   \<and> render_resume_html resume_template
     \<lparr>name = Some ''Ann'', contact_line = Some ''Oslo'',
      sections = Some [\<lparr>title = Some ''[[Skills]]'', kind = Some ''list'',
                        content = None, entries = None, lines = Some [''Python'']\<rparr>],
      other_keys = []\<rparr> True
   \<noteq> render_resume_html resume_template
     \<lparr>name = Some ''Ann'', contact_line = Some ''Oslo'',
      sections = Some [\<lparr>title = Some ''[[Skills]]'', kind = Some ''list'',
                        content = None, entries = None, lines = Some [''Python'']\<rparr>],
      other_keys = []\<rparr> False"
  by code_simp

text \<open>
  C9 (amended). For every document none of whose strings holds a delimiter \<open>[[\<close> or \<open>]]\<close>
  (name, contact line, section titles, contents, lines, the four header fields of an
  entry, subsection titles and all bullets), the highlighted and the clean output are
  the same text.
\<close>

theorem marker_free_same_output:
  assumes "document_marker_free d"
  shows "render_resume_html resume_template d True = render_resume_html resume_template d False"
proof -
  from assms have "sealed (template_render resume_template d)"
    unfolding template_render_def document_marker_free_def
    by (intro sealed_resume_template) simp_all
  then have "marker_free (template_render resume_template d)" by (simp add: sealed_def)
  then show ?thesis by (simp add: render_resume_html_def mark_marker_free)
qed

theorem marker_free_same_output_witness:
  "render_resume_html resume_template
     \<lparr>name = Some ''Ann'', contact_line = Some ''Oslo'',
      sections = Some [\<lparr>title = Some ''Skills [a]'', kind = Some ''list'',
                        content = None, entries = None, lines = Some [''Python'']\<rparr>],
      other_keys = []\<rparr> True
   = render_resume_html resume_template
     \<lparr>name = Some ''Ann'', contact_line = Some ''Oslo'',
      sections = Some [\<lparr>title = Some ''Skills [a]'', kind = Some ''list'',
                        content = None, entries = None, lines = Some [''Python'']\<rparr>],
      other_keys = []\<rparr> False"
proof -
  have "document_marker_free
     \<lparr>name = Some ''Ann'', contact_line = Some ''Oslo'',
      sections = Some [\<lparr>title = Some ''Skills [a]'', kind = Some ''list'',
                        content = None, entries = None, lines = Some [''Python'']\<rparr>],
      other_keys = []\<rparr>"
    by code_simp
  then show ?thesis by (rule marker_free_same_output)
qed

section \<open>Scraping: properties\<close>

text \<open>
  C5. The JSON-LD strategy tests the length of the text before stripping it and returns
  the stripped text: a posting whose description is 100 spaces passes the test, and the
  caller receives 23 characters.
\<close>

theorem short_text_returned:
  "scrape_job_url padded_world ''http://example.com/job''
     = Inr (Some (''Job Title: Dev'' @ [CHR 0x0A] @ ''Company:''))
   \<and> length (''Job Title: Dev'' @ [CHR 0x0A] @ ''Company:'') = 23"
  by code_simp

text \<open>
  C6. \<open>urlparse\<close> is called outside both \<open>try\<close> blocks: on a URL whose network location has an
  opening square bracket and no closing one, its \<open>ValueError\<close> reaches the caller, whatever
  the network answers.
\<close>

theorem invalid_url_raises: "scrape_job_url w ''http://['' = Inl ValueError"
  by (simp add: scrape_job_url_def urlparse_netloc_def startswith_def scheme_char_def
      ascii_alpha_def Let_def)

text \<open>
  A second way in which a failure of one strategy does not lead to the next one: a JSON-LD
  script holding \<open>[]\<close> raises \<open>IndexError\<close> at \<open>data[0]\<close>, which the inner \<open>except\<close> does not
  name; the outer one catches it, and the selectors, which would have found the article,
  are never tried.
\<close>

lemma empty_ld_list_skips_selectors:
  "scrape_job_url article_world ''http://example.com/job'' = Inr None
   \<and> selector_loop article_soup content_selectors = Some (replicate 300 (CHR ''x''))"
  by code_simp


text \<open>
  Every other strategy keeps the threshold: a text that \<open>scrape_job_url\<close> returns and that
  has 100 characters or fewer comes from the JSON-LD strategy.
\<close>

lemma join_length: "length (join [] xs) \<le> length (join sep xs)"
  by (induction sep xs rule: join.induct) auto

lemma guest_api_threshold: "scrape_linkedin_guest_api w j = Some t \<Longrightarrow> 100 < length t"
  by (auto simp: scrape_linkedin_guest_api_def Let_def split: option.splits if_splits)

lemma selector_loop_threshold: "selector_loop sp sels = Some t \<Longrightarrow> 200 < length t"
proof (induction sels)
  case Nil
  then show ?case by simp
next
  case (Cons sel rest)
  show ?case
  proof (cases "select_one sp sel")
    case None
    with Cons show ?thesis by simp
  next
    case (Some el)
    show ?thesis
    proof (cases "200 < length (get_text [] True el)")
      case True
      with Some Cons.prems have "t = get_text [CHR 0x0A] True el" by simp
      moreover have "length (get_text [] True el) \<le> length (get_text [CHR 0x0A] True el)"
        by (simp add: get_text_def join_length)
      ultimately show ?thesis using True by simp
    next
      case False
      with Some Cons show ?thesis by simp
    qed
  qed
qed

lemma body_text_threshold: "body_text sp = Some t \<Longrightarrow> 200 < length t"
  by (auto simp: body_text_def Let_def split: option.splits if_splits)

lemma scrape_cache_threshold: "scrape_cache w url = Some t \<Longrightarrow> 200 < length t"
  by (auto simp: scrape_cache_def split: option.splits if_splits dest: body_text_threshold)

lemma threshold_unless_json_ld:
  assumes "scrape_job_url w url = Inr (Some t)"
  shows "100 < length t
     \<or> (\<exists>r. http_get w url = Some r
            \<and> ld_loop w (ld_json_scripts (parse_html w (resp_text r))) = Inr (Some t))"
proof -
  from assms obtain netloc where n: "urlparse_netloc url = Inr netloc"
    by (auto simp: scrape_job_url_def split: if_splits sum.splits)
  show ?thesis
  proof (cases "scrape_linkedin w netloc url")
    case (Some result)
    with assms n have "result = t" by (auto simp: scrape_job_url_def split: if_splits)
    with Some have "100 < length t"
      by (auto simp: scrape_linkedin_def split: if_splits option.splits dest: guest_api_threshold)
    then show ?thesis by simp
  next
    case None
    show ?thesis
    proof (cases "scrape_page w url = Inr (Some t)")
      case True
      then obtain r where r: "http_get w url = Some r" "ok r"
        by (auto simp: scrape_page_def split: option.splits if_splits)
      let ?sp = "parse_html w (resp_text r)"
      from True r have "ld_loop w (ld_json_scripts ?sp) = Inr (Some t)
          \<or> selector_loop ?sp content_selectors = Some t \<or> body_text ?sp = Some t"
        by (auto simp: scrape_page_def Let_def split: sum.splits option.splits)
      with r(1) show ?thesis
        using selector_loop_threshold body_text_threshold by fastforce
    next
      case False
      with assms n None have "scrape_cache w url = Some t"
        by (auto simp: scrape_job_url_def split: if_splits sum.splits option.splits)
      from scrape_cache_threshold [OF this] show ?thesis by simp
    qed
  qed
qed

section \<open>The section blocks of the output\<close>























lemma framed_tag:
  assumes "marker_free t" and "no_section_tag t" and "t \<noteq> []"
    and "\<not> is_bracket (hd t)" and "\<not> is_bracket (last t)"
  shows "framed h t"
  using assms by (simp add: framed_def mark_marker_free)













end
